theory Spec2Isabelle
  imports Main
begin

section \<open>C strings in a character array\<close>

text \<open>
  The line buffer is a \<^verbatim>\<open>char\<close> array that holds a NUL-terminated string. The array
  is modelled as a list of bytes; a pointer into it is an index. Reading or writing at
  an index outside the list, and reading through a null pointer, are results of their
  own, so that a run of the code that would leave the array is a branch of the model.
\<close>

datatype error = OutOfBounds | NullDeref

abbreviation NUL :: char where
  "NUL \<equiv> CHR 0x00"

text \<open>\<^verbatim>\<open>isprint\<close> of the C locale: the bytes 0x20 (space) to 0x7E (tilde).\<close>

definition isprint :: "char \<Rightarrow> bool" where
  "isprint c \<longleftrightarrow> (0x20::nat) \<le> of_char c \<and> (of_char c :: nat) \<le> 0x7E"

text \<open>The string a pointer \<open>p\<close> into the array denotes: the bytes from \<open>p\<close> up to the next NUL.\<close>

definition cstr :: "char list \<Rightarrow> nat \<Rightarrow> string" where
  "cstr mem p = takeWhile (\<lambda>c. c \<noteq> NUL) (drop p mem)"

text \<open>One array write \<^verbatim>\<open>mem[i] = c\<close>.\<close>

definition poke :: "char list \<Rightarrow> nat \<Rightarrow> char \<Rightarrow> error + char list" where
  "poke mem i c = (if i < length mem then Inr (mem[i := c]) else Inl OutOfBounds)"

text \<open>
  \<^verbatim>\<open>strcmp\<close>: only the sign of the result is specified by the C standard, and only
  the comparison with zero is used by the program.
\<close>

fun strcmp :: "string \<Rightarrow> string \<Rightarrow> int" where
  "strcmp [] [] = 0"
| "strcmp [] (b # bs) = - 1"
| "strcmp (a # as) [] = 1"
| "strcmp (a # as) (b # bs) =
     (if a = b then strcmp as bs
      else if (of_char a :: nat) < of_char b then - 1 else 1)"

text \<open>
  \<^verbatim>\<open>strtok_r(str, delim, saveptr)\<close> on the array \<open>mem\<close>. \<open>str\<close> is \<open>Some p\<close> for a
  pointer into the array and \<open>None\<close> for \<^verbatim>\<open>NULL\<close>, in which case the scan resumes at
  the saved pointer. Leading delimiters are skipped; if the string ends there, no token
  is returned. Otherwise the token runs up to the next delimiter, which is overwritten by
  NUL, and the saved pointer moves past it; a token that ends at the string's own NUL
  leaves the saved pointer on that NUL. The results are the token, the array and the
  saved pointer.

  The function belongs to the C library, not to the program. POSIX leaves open what the
  saved pointer holds once the string is exhausted: some libraries leave it on the
  terminating NUL, as here, others store \<^verbatim>\<open>NULL\<close> and answer \<^verbatim>\<open>NULL\<close> to every later
  call. Both return the same tokens in the same order. A call with \<^verbatim>\<open>str == NULL\<close>
  before any saved pointer exists has nowhere to resume; the model makes it the error
  \<open>NullDeref\<close>.
\<close>

definition strspn_at :: "char list \<Rightarrow> nat \<Rightarrow> string \<Rightarrow> nat" where
  "strspn_at mem p delim = length (takeWhile (\<lambda>c. c \<noteq> NUL \<and> c \<in> set delim) (drop p mem))"

definition strcspn_at :: "char list \<Rightarrow> nat \<Rightarrow> string \<Rightarrow> nat" where
  "strcspn_at mem p delim = length (takeWhile (\<lambda>c. c \<noteq> NUL \<and> c \<notin> set delim) (drop p mem))"

definition strtok_r ::
  "char list \<Rightarrow> nat option \<Rightarrow> string \<Rightarrow> nat option
     \<Rightarrow> error + (nat option \<times> char list \<times> nat option)" where
  "strtok_r mem str delim saveptr =
     (case (case str of Some p \<Rightarrow> Some p | None \<Rightarrow> saveptr) of
        None \<Rightarrow> Inl NullDeref
      | Some p \<Rightarrow>
          (let q = p + strspn_at mem p delim in
           if length mem \<le> q then Inl OutOfBounds
           else if mem ! q = NUL then Inr (None, mem, Some q)
           else
             (let e = q + strcspn_at mem q delim in
              if length mem \<le> e then Inl OutOfBounds
              else if mem ! e = NUL then Inr (Some q, mem, Some e)
              else Inr (Some q, mem[e := NUL], Some (Suc e)))))"

section \<open>The SerialCommand object\<close>

text \<open>
  A handler is a function pointer; the model keeps its identity. A \<^verbatim>\<open>const char *\<close>
  name is either a pointer to a constant string outside the object (its contents) or
  a pointer into the object's own line buffer (its offset). \<open>None\<close> is \<^verbatim>\<open>NULL\<close>.
\<close>

type_synonym handler = nat

datatype cptr = Lit string | Buf nat

record CommandInfo =
  name :: "cptr option"
  func :: "handler option"

text \<open>
  The fields of the class, without the leading underscore. \<open>term_char\<close> is \<^verbatim>\<open>_term\<close>,
  \<open>last_ptr\<close> is \<^verbatim>\<open>_last\<close> (the saved pointer of \<^verbatim>\<open>strtok_r\<close>) and \<open>func\<close> is the
  field \<^verbatim>\<open>function\<close> of \<^verbatim>\<open>CommandInfo\<close>. The stream \<^verbatim>\<open>_port\<close> is a reference to
  an object outside the class: the functions that read it take its pending bytes as an
  argument, and the function that writes to it returns what it wrote.

  The class declaration is in \<^verbatim>\<open>SerialCommand.h\<close>, which is not among the sources.
  The constant \<^verbatim>\<open>SERIALCOMMAND_BUFFER\<close> is therefore an argument \<open>C\<close> of the functions
  that use it. The array \<^verbatim>\<open>_buffer\<close> is a list whose length is the declared size of
  the array; the theorems that depend on it assume the size \<open>C + 1\<close>, the capacity and
  the terminating NUL that the specification's data model requires. The counters
  \<^verbatim>\<open>_bufPos\<close> and \<^verbatim>\<open>_commandCount\<close> are natural numbers: the code only resets and
  increments them, the first below \<open>C\<close> and the second below \<^verbatim>\<open>_maxCommands\<close>.
\<close>

record SerialCommand =
  commandList :: "CommandInfo list"
  commandCount :: nat
  maxCommands :: nat
  term_char :: char
  delim :: string
  last_ptr :: "nat option"
  buffer :: "char list"
  bufPos :: nat
  device_type :: "string option"
  writeEnablePin :: int
  default_command :: CommandInfo
  current_command :: CommandInfo

text \<open>The string a name pointer denotes for an object.\<close>

fun deref :: "SerialCommand \<Rightarrow> cptr \<Rightarrow> string" where
  "deref s (Lit str) = str"
| "deref s (Buf p) = cstr (buffer s) p"

subsection \<open>clearBuffer\<close>

text \<open>
  \<^verbatim>\<open>_buffer[0] = '\0'; _bufPos = 0;\<close> The first byte lies inside the array whatever
  its declared size, so this write has no failure branch.
\<close>

definition clearBuffer :: "SerialCommand \<Rightarrow> SerialCommand" where
  "clearBuffer s = s\<lparr>buffer := (buffer s)[0 := NUL], bufPos := 0\<rparr>"

subsection \<open>readSerial\<close>

text \<open>
  The two statements that store a byte, in \<^verbatim>\<open>readSerial\<close> and in \<^verbatim>\<open>setBuffer\<close>:
  \<^verbatim>\<open>_buffer[_bufPos++] = inChar; _buffer[_bufPos] = '\0';\<close>
\<close>

definition putChar :: "SerialCommand \<Rightarrow> char \<Rightarrow> error + SerialCommand" where
  "putChar s inChar =
     (case poke (buffer s) (bufPos s) inChar of
        Inl e \<Rightarrow> Inl e
      | Inr m1 \<Rightarrow>
          (case poke m1 (Suc (bufPos s)) NUL of
             Inl e \<Rightarrow> Inl e
           | Inr m2 \<Rightarrow> Inr (s\<lparr>buffer := m2, bufPos := Suc (bufPos s)\<rparr>)))"

text \<open>
  \<^verbatim>\<open>readSerial\<close>. \<open>C\<close> is the constant \<^verbatim>\<open>SERIALCOMMAND_BUFFER\<close> of the header. The list
  is what the stream has available; the loop takes its bytes in order until the list is
  empty or the terminator is read. The results are the returned number, the bytes left
  on the stream and the object.
\<close>

fun readSerial ::
  "nat \<Rightarrow> char list \<Rightarrow> SerialCommand \<Rightarrow> error + (int \<times> char list \<times> SerialCommand)" where
  "readSerial C [] s = Inr (0, [], s)"
| "readSerial C (inChar # port) s =
     (if inChar = term_char s then Inr (int (bufPos s), port, s)
      else if isprint inChar then
        (if bufPos s < C then
           (case putChar s inChar of
              Inl e \<Rightarrow> Inl e
            | Inr s' \<Rightarrow> readSerial C port s')
         else readSerial C port (s\<lparr>bufPos := 0\<rparr>))
      else readSerial C port s)"

text \<open>
  The polling loop of a caller that finds one byte on the stream at each call of
  \<^verbatim>\<open>readSerial\<close>.
\<close>

fun feedEach :: "nat \<Rightarrow> char list \<Rightarrow> SerialCommand \<Rightarrow> error + SerialCommand" where
  "feedEach C [] s = Inr s"
| "feedEach C (b # bs) s =
     (case readSerial C [b] s of
        Inl e \<Rightarrow> Inl e
      | Inr (r, rest, s') \<Rightarrow> feedEach C bs s')"

subsection \<open>setBuffer\<close>

text \<open>
  \<^verbatim>\<open>setBuffer\<close>. The argument is the bytes at \<^verbatim>\<open>text_line\<close>; the loop stops at the first
  NUL among them, and at their end, where the string's terminating NUL stands.
\<close>

fun setBuffer_loop :: "nat \<Rightarrow> string \<Rightarrow> SerialCommand \<Rightarrow> error + SerialCommand" where
  "setBuffer_loop C [] s = Inr s"
| "setBuffer_loop C (inChar # text_line) s =
     (if inChar = NUL then Inr s
      else if inChar = term_char s then Inr s
      else if isprint inChar then
        (if bufPos s < C then
           (case putChar s inChar of
              Inl e \<Rightarrow> Inl e
            | Inr s' \<Rightarrow> setBuffer_loop C text_line s')
         else Inr s)
      else setBuffer_loop C text_line s)"

definition setBuffer :: "nat \<Rightarrow> string \<Rightarrow> SerialCommand \<Rightarrow> error + SerialCommand" where
  "setBuffer C text_line s = setBuffer_loop C text_line (clearBuffer s)"

subsection \<open>The command registry\<close>

definition SerialCommand_init ::
  "SerialCommand \<Rightarrow> string option \<Rightarrow> int \<Rightarrow> nat \<Rightarrow> SerialCommand" where
  \<comment> \<open>The constructor. The first argument is the object's storage before construction:
      the constructor leaves the rest of the buffer, the name of the default command
      and the current command as they are.\<close>
  "SerialCommand_init raw deviceType pin maxCmds =
     (let s = clearBuffer (raw\<lparr>commandCount := 0, term_char := CHR 0x0A, last_ptr := None,
                maxCommands := maxCmds, device_type := deviceType,
                writeEnablePin := pin, delim := '' ''\<rparr>)
      in s\<lparr>commandList := replicate maxCmds \<lparr>name = None, func = None\<rparr>,
            default_command := (default_command s)\<lparr>func := None\<rparr>\<rparr>)"

definition addCommand ::
  "SerialCommand \<Rightarrow> cptr option \<Rightarrow> handler option \<Rightarrow> error + SerialCommand" where
  "addCommand s nm f =
     (if maxCommands s \<le> commandCount s then Inr s
      else if length (commandList s) \<le> commandCount s then Inl OutOfBounds
      else Inr (s\<lparr>commandList := (commandList s)[commandCount s := \<lparr>name = nm, func = f\<rparr>],
                  commandCount := Suc (commandCount s)\<rparr>))"

definition setDefaultHandler :: "SerialCommand \<Rightarrow> handler option \<Rightarrow> SerialCommand" where
  "setDefaultHandler s f = s\<lparr>default_command := (default_command s)\<lparr>func := f\<rparr>\<rparr>"

text \<open>
  The loop of \<^verbatim>\<open>lookupCommandByName\<close> from index \<open>i\<close>: the first entry below
  \<^verbatim>\<open>_commandCount\<close> whose name compares equal to \<open>n\<close>, or \<open>None\<close> when the loop ends with
  \<^verbatim>\<open>matched\<close> still false.
\<close>

function lookup_from ::
  "SerialCommand \<Rightarrow> string \<Rightarrow> nat \<Rightarrow> error + CommandInfo option" where
  "lookup_from s n i =
     (if i < commandCount s then
        (if length (commandList s) \<le> i then Inl OutOfBounds
         else
           (case name (commandList s ! i) of
              None \<Rightarrow> Inl NullDeref
            | Some p \<Rightarrow>
                if strcmp n (deref s p) = 0 then Inr (Some (commandList s ! i))
                else lookup_from s n (Suc i)))
      else Inr None)"
  by pat_completeness auto
termination
  by (relation "measure (\<lambda>(s, n, i). commandCount s - i)") auto

declare lookup_from.simps [simp del]

definition lookupCommandByName ::
  "SerialCommand \<Rightarrow> cptr option \<Rightarrow> error + SerialCommand" where
  "lookupCommandByName s nm =
     (case nm of
        None \<Rightarrow> Inr s
      | Some p \<Rightarrow>
          (case lookup_from s (deref s p) 0 of
             Inl e \<Rightarrow> Inl e
           | Inr (Some c) \<Rightarrow> Inr (s\<lparr>current_command := c\<rparr>)
           | Inr None \<Rightarrow> Inr (s\<lparr>current_command := (default_command s)\<lparr>name := Some p\<rparr>\<rparr>)))"

text \<open>
  \<^verbatim>\<open>runCommand\<close>. The handler is code outside the class and receives the object by
  value; the model returns the call that is made, if any: the handler and the copy of
  the object it is given.
\<close>

type_synonym call = "handler \<times> SerialCommand"

definition runCommand :: "SerialCommand \<Rightarrow> call option" where
  "runCommand s = (case func (current_command s) of None \<Rightarrow> None | Some f \<Rightarrow> Some (f, s))"

subsection \<open>Tokens and dispatch\<close>

definition next_token :: "SerialCommand \<Rightarrow> error + (nat option \<times> SerialCommand)" where
  \<comment> \<open>The member function \<^verbatim>\<open>next\<close>.\<close>
  "next_token s =
     (case strtok_r (buffer s) None (delim s) (last_ptr s) of
        Inl e \<Rightarrow> Inl e
      | Inr (tok, mem, l) \<Rightarrow> Inr (tok, s\<lparr>buffer := mem, last_ptr := l\<rparr>))"

definition matchCommand :: "SerialCommand \<Rightarrow> error + SerialCommand" where
  "matchCommand s =
     (case strtok_r (buffer s) (Some 0) (delim s) (last_ptr s) of
        Inl e \<Rightarrow> Inl e
      | Inr (nm, mem, l) \<Rightarrow>
          lookupCommandByName (s\<lparr>buffer := mem, last_ptr := l\<rparr>) (map_option Buf nm))"

text \<open>
  \<^verbatim>\<open>processCommand\<close>. \<^verbatim>\<open>strcmp(identifier, _device_type)\<close> is evaluated only when
  \<^verbatim>\<open>_device_type\<close> is not null, and reads through \<^verbatim>\<open>identifier\<close>. The results are the
  call made to a handler, if any, and the object after \<^verbatim>\<open>clearBuffer\<close>.
\<close>

definition processCommand :: "SerialCommand \<Rightarrow> error + (call option \<times> SerialCommand)" where
  "processCommand s =
     (case strtok_r (buffer s) (Some 0) (delim s) (last_ptr s) of
        Inl e \<Rightarrow> Inl e
      | Inr (nm, mem1, l1) \<Rightarrow>
          (case strtok_r mem1 None (delim s) l1 of
             Inl e \<Rightarrow> Inl e
           | Inr (identifier, mem2, l2) \<Rightarrow>
               (let s2 = s\<lparr>buffer := mem2, last_ptr := l2\<rparr> in
                case device_type s2 of
                  None \<Rightarrow> Inr (None, clearBuffer s2)
                | Some d \<Rightarrow>
                    (case identifier of
                       None \<Rightarrow> Inl NullDeref
                     | Some i \<Rightarrow>
                         if strcmp (cstr mem2 i) d = 0 then
                           (case lookupCommandByName s2 (map_option Buf nm) of
                              Inl e \<Rightarrow> Inl e
                            | Inr s3 \<Rightarrow> Inr (runCommand s3, clearBuffer s3))
                         else Inr (None, clearBuffer s2)))))"

subsection \<open>sendData\<close>



subsection \<open>The tokens of a line, as the specification describes them\<close>

text \<open>
  This function is not taken from the code. It is the specification's account of a
  tokenized line, against which \<^verbatim>\<open>strtok_r\<close> is compared: the tokens are the maximal
  non-empty runs of characters that are not delimiters, in order.
\<close>

function spec_tokens :: "string \<Rightarrow> string \<Rightarrow> string list" where
  "spec_tokens dl line =
     (let rest = dropWhile (\<lambda>c. c \<in> set dl) line in
      if rest = [] then []
      else takeWhile (\<lambda>c. c \<notin> set dl) rest # spec_tokens dl (dropWhile (\<lambda>c. c \<notin> set dl) rest))"
  by pat_completeness auto
termination
proof (relation "measure (\<lambda>(dl, line). length line)")
  show "wf (measure (\<lambda>(dl, line). length line))" by simp
next
  fix dl :: string and line rest :: string
  assume r: "rest = dropWhile (\<lambda>c. c \<in> set dl) line" and ne: "rest \<noteq> []"
  from ne obtain x xs where x: "rest = x # xs" by (cases rest) auto
  have "dropWhile (\<lambda>c. c \<in> set dl) line \<noteq> []" using r ne by simp
  from hd_dropWhile [OF this] have "x \<notin> set dl" using r x by (metis list.sel(1))
  then have "length (dropWhile (\<lambda>c. c \<notin> set dl) rest) \<le> length xs"
    using x by (simp add: length_dropWhile_le)
  moreover have "length rest \<le> length line" using r by (simp add: length_dropWhile_le)
  ultimately show "((dl, dropWhile (\<lambda>c. c \<notin> set dl) rest), (dl, line)) \<in> measure (\<lambda>(dl, line). length line)"
    using x by simp
qed

declare spec_tokens.simps [simp del]

subsection \<open>Reading results\<close>

text \<open>Whether a registry entry carries the name \<open>n\<close>, by the contents of the string.\<close>

definition name_is :: "SerialCommand \<Rightarrow> CommandInfo \<Rightarrow> string \<Rightarrow> bool" where
  "name_is s c n = (case name c of None \<Rightarrow> False | Some q \<Rightarrow> deref s q = n)"

text \<open>The text of the token a call of \<^verbatim>\<open>next\<close> returned, read in the object it left.\<close>

definition returned_token :: "error + nat option \<times> SerialCommand \<Rightarrow> string option" where
  "returned_token r =
     (case r of
        Inl e \<Rightarrow> None
      | Inr (tok, s) \<Rightarrow> map_option (cstr (buffer s)) tok)"

subsection \<open>Example objects\<close>

text \<open>
  An object as the constructor and the registration calls leave it, for a buffer of
  \<^verbatim>\<open>SERIALCOMMAND_BUFFER = 20\<close> bytes and its terminating NUL: device type \<^verbatim>\<open>"DEV1"\<close>,
  room for two commands, \<^verbatim>\<open>"OPEN"\<close> registered with handler 1, default handler 9.
\<close>

definition example_storage :: SerialCommand where
  "example_storage =
     \<lparr>commandList = [], commandCount = 5, maxCommands = 0, term_char = CHR ''#'',
      delim = [], last_ptr = Some 3, buffer = replicate 21 (CHR ''#''), bufPos = 7,
      device_type = None, writeEnablePin = 0,
      default_command = \<lparr>name = None, func = Some 4\<rparr>,
      current_command = \<lparr>name = None, func = None\<rparr>\<rparr>"

definition example_device :: SerialCommand where
  "example_device =
     \<lparr>commandList = [\<lparr>name = Some (Lit ''OPEN''), func = Some 1\<rparr>,
                     \<lparr>name = None, func = None\<rparr>],
      commandCount = 1, maxCommands = 2, term_char = CHR 0x0A,
      delim = '' '', last_ptr = None, buffer = NUL # replicate 20 (CHR ''#''), bufPos = 0,
      device_type = Some ''DEV1'', writeEnablePin = 2,
      default_command = \<lparr>name = None, func = Some 9\<rparr>,
      current_command = \<lparr>name = None, func = None\<rparr>\<rparr>"

text \<open>The same object holding a line.\<close>

definition with_line :: "string \<Rightarrow> SerialCommand" where
  "with_line l = example_device\<lparr>buffer := l @ replicate (21 - length l) NUL, bufPos := length l\<rparr>"

section \<open>Properties\<close>

subsection \<open>The example object\<close>

lemma example_device_built:
  "map_sum id (\<lambda>d. setDefaultHandler d (Some 9))
     (addCommand (SerialCommand_init example_storage (Some ''DEV1'') 2 2)
        (Some (Lit ''OPEN'')) (Some 1))
   = Inr example_device"
  by (simp add: addCommand_def SerialCommand_init_def example_storage_def example_device_def
      setDefaultHandler_def clearBuffer_def Let_def numeral_eq_Suc)

subsection \<open>Accumulation\<close>

lemma isprint_not_NUL: "isprint c \<Longrightarrow> c \<noteq> NUL"
  by (auto simp: isprint_def)

lemma putChar_ok:
  "Suc (bufPos s) < length (buffer s) \<Longrightarrow>
   putChar s c = Inr (s\<lparr>buffer := (buffer s)[bufPos s := c, Suc (bufPos s) := NUL],
                         bufPos := Suc (bufPos s)\<rparr>)"
  by (simp add: putChar_def poke_def)

lemma take_store:
  "n < length xs \<Longrightarrow> take (Suc n) (xs[n := c]) = take n xs @ [c]"
  by (simp add: take_Suc_conv_app_nth)

lemma readSerial_skip:
  "b \<noteq> term_char s \<Longrightarrow> \<not> isprint b \<Longrightarrow> readSerial C (b # inp) s = readSerial C inp s"
  by simp

lemma readSerial_reset:
  "b \<noteq> term_char s \<Longrightarrow> isprint b \<Longrightarrow> \<not> bufPos s < C \<Longrightarrow>
   readSerial C (b # inp) s = readSerial C inp (s\<lparr>bufPos := 0\<rparr>)"
  by simp

lemma readSerial_store:
  "b \<noteq> term_char s \<Longrightarrow> isprint b \<Longrightarrow> bufPos s < C \<Longrightarrow> length (buffer s) = Suc C \<Longrightarrow>
   readSerial C (b # inp) s =
     readSerial C inp (s\<lparr>buffer := (buffer s)[bufPos s := b, Suc (bufPos s) := NUL],
                         bufPos := Suc (bufPos s)\<rparr>)"
  by (simp add: putChar_ok)

lemma readSerial_accum:
  "length (buffer s) = Suc C \<Longrightarrow> term_char s \<notin> set bs \<Longrightarrow>
   bufPos s + length (filter isprint bs) \<le> C \<Longrightarrow>
   \<exists>s'. readSerial C bs s = Inr (0, [], s') \<and> feedEach C bs s = Inr s' \<and>
        length (buffer s') = Suc C \<and> term_char s' = term_char s \<and>
        bufPos s' = bufPos s + length (filter isprint bs) \<and>
        take (bufPos s') (buffer s') = take (bufPos s) (buffer s) @ filter isprint bs \<and>
        (filter isprint bs \<noteq> [] \<or> buffer s ! bufPos s = NUL \<longrightarrow> buffer s' ! bufPos s' = NUL)"
proof (induction bs arbitrary: s)
  case Nil
  then show ?case by simp
next
  case (Cons b bs)
  from Cons.prems have nt: "b \<noteq> term_char s" and nts: "term_char s \<notin> set bs" by auto
  show ?case
  proof (cases "isprint b")
    case False
    with Cons.prems nts have "bufPos s + length (filter isprint bs) \<le> C" by simp
    from Cons.IH [OF Cons.prems(1) nts this] False nt show ?thesis by simp
  next
    case True
    with Cons.prems have lt: "bufPos s < C" by simp
    let ?s1 = "s\<lparr>buffer := (buffer s)[bufPos s := b, Suc (bufPos s) := NUL],
                  bufPos := Suc (bufPos s)\<rparr>"
    have step: "\<And>inp. readSerial C (b # inp) s = readSerial C inp ?s1"
      using readSerial_store [OF nt True lt Cons.prems(1)] .
    have l1: "length (buffer ?s1) = Suc C" using Cons.prems(1) by simp
    have t1: "term_char ?s1 \<notin> set bs" using nts by simp
    have b1: "bufPos ?s1 + length (filter isprint bs) \<le> C" using Cons.prems(3) True by simp
    from Cons.IH [OF l1 t1 b1] obtain s' where
      r: "readSerial C bs ?s1 = Inr (0, [], s')" and f: "feedEach C bs ?s1 = Inr s'" and
      l: "length (buffer s') = Suc C" and t: "term_char s' = term_char ?s1" and
      p: "bufPos s' = bufPos ?s1 + length (filter isprint bs)" and
      tk: "take (bufPos s') (buffer s') = take (bufPos ?s1) (buffer ?s1) @ filter isprint bs" and
      z: "filter isprint bs \<noteq> [] \<or> buffer ?s1 ! bufPos ?s1 = NUL \<longrightarrow> buffer s' ! bufPos s' = NUL"
      by blast
    have "buffer ?s1 ! bufPos ?s1 = NUL" using lt Cons.prems(1) by simp
    with z have z': "buffer s' ! bufPos s' = NUL" by blast
    have tk1: "take (bufPos ?s1) (buffer ?s1) = take (bufPos s) (buffer s) @ [b]"
      using lt Cons.prems(1) by (simp add: take_store)
    have "readSerial C (b # bs) s = Inr (0, [], s')" using step r by simp
    moreover have "feedEach C (b # bs) s = Inr s'" using step [of "[]"] f by simp
    moreover have "take (bufPos s') (buffer s') = take (bufPos s) (buffer s) @ filter isprint (b # bs)"
      using tk tk1 True by simp
    moreover have "bufPos s' = bufPos s + length (filter isprint (b # bs))" using p True by simp
    ultimately show ?thesis using l t z' by simp
  qed
qed

lemma cstr_0_take:
  "n < length mem \<Longrightarrow> mem ! n = NUL \<Longrightarrow> \<forall>c \<in> set (take n mem). c \<noteq> NUL \<Longrightarrow> cstr mem 0 = take n mem"
proof -
  assume n: "n < length mem" and z: "mem ! n = NUL" and nz: "\<forall>c \<in> set (take n mem). c \<noteq> NUL"
  have "mem = take n mem @ mem ! n # drop (Suc n) mem" using n by (simp add: id_take_nth_drop)
  then have "takeWhile (\<lambda>c. c \<noteq> NUL) mem = takeWhile (\<lambda>c. c \<noteq> NUL) (take n mem @ NUL # drop (Suc n) mem)"
    using z by simp
  also have "\<dots> = take n mem" using nz by (simp add: takeWhile_tail)
  finally show ?thesis by (simp add: cstr_def)
qed


lemma readSerial_run:
  "length (buffer s) = Suc C \<Longrightarrow> bufPos s \<le> C \<Longrightarrow> term_char s \<notin> set pre \<Longrightarrow>
   \<exists>s1. readSerial C pre s = Inr (0, [], s1) \<and> length (buffer s1) = Suc C \<and> bufPos s1 \<le> C \<and>
        term_char s1 = term_char s \<and>
        (\<forall>rest. readSerial C (pre @ rest) s = readSerial C rest s1)"
proof (induction pre arbitrary: s)
  case Nil
  then show ?case by simp
next
  case (Cons b pre)
  from Cons.prems have nt: "b \<noteq> term_char s" and nts: "term_char s \<notin> set pre" by auto
  consider (skip) "\<not> isprint b" | (reset) "isprint b" "\<not> bufPos s < C"
    | (store) "isprint b" "bufPos s < C" by blast
  then show ?case
  proof cases
    case skip
    from Cons.IH [OF Cons.prems(1,2) nts] skip nt show ?thesis by simp
  next
    case reset
    let ?s0 = "s\<lparr>bufPos := 0\<rparr>"
    have "length (buffer ?s0) = Suc C" "bufPos ?s0 \<le> C" "term_char ?s0 \<notin> set pre"
      using Cons.prems(1) nts by simp_all
    from Cons.IH [OF this] reset nt show ?thesis by simp
  next
    case store
    let ?s1 = "s\<lparr>buffer := (buffer s)[bufPos s := b, Suc (bufPos s) := NUL],
                  bufPos := Suc (bufPos s)\<rparr>"
    have step: "\<And>inp. readSerial C (b # inp) s = readSerial C inp ?s1"
      using readSerial_store [OF nt store Cons.prems(1)] .
    have "length (buffer ?s1) = Suc C" "bufPos ?s1 \<le> C" "term_char ?s1 \<notin> set pre"
      using Cons.prems(1) nts store by simp_all
    from Cons.IH [OF this] show ?thesis unfolding append_Cons step by simp
  qed
qed

lemma readSerial_total:
  "length (buffer s) = Suc C \<Longrightarrow> bufPos s \<le> C \<Longrightarrow>
   \<exists>r rest s'. readSerial C inp s = Inr (r, rest, s') \<and> length (buffer s') = Suc C \<and>
        bufPos s' \<le> C \<and> 0 \<le> r \<and> r \<le> int C"
proof (induction inp arbitrary: s)
  case Nil
  then show ?case by simp
next
  case (Cons b inp)
  consider (stop) "b = term_char s" | (skip) "b \<noteq> term_char s" "\<not> isprint b"
    | (reset) "b \<noteq> term_char s" "isprint b" "\<not> bufPos s < C"
    | (store) "b \<noteq> term_char s" "isprint b" "bufPos s < C" by blast
  then show ?case
  proof cases
    case stop
    with Cons.prems show ?thesis by simp
  next
    case skip
    from Cons.IH [OF Cons.prems] skip show ?thesis by simp
  next
    case reset
    let ?s0 = "s\<lparr>bufPos := 0\<rparr>"
    have "length (buffer ?s0) = Suc C" "bufPos ?s0 \<le> C" using Cons.prems(1) by simp_all
    from Cons.IH [OF this] reset show ?thesis by simp
  next
    case store
    let ?s1 = "s\<lparr>buffer := (buffer s)[bufPos s := b, Suc (bufPos s) := NUL],
                  bufPos := Suc (bufPos s)\<rparr>"
    have step: "readSerial C (b # inp) s = readSerial C inp ?s1"
      using readSerial_store [OF store Cons.prems(1)] .
    have "length (buffer ?s1) = Suc C" "bufPos ?s1 \<le> C" using Cons.prems(1) store by simp_all
    from Cons.IH [OF this] show ?thesis unfolding step by simp
  qed
qed

lemma printable_cstr:
  assumes "n < length mem" "mem ! n = NUL" "take n mem = filter isprint bs"
  shows "cstr mem 0 = filter isprint bs"
proof -
  have "\<forall>c \<in> set (take n mem). c \<noteq> NUL" using assms(3) isprint_not_NUL by auto
  from cstr_0_take [OF assms(1,2) this] assms(3) show ?thesis by simp
qed

lemma clearBuffer_fields:
  "bufPos (clearBuffer s) = 0" "length (buffer (clearBuffer s)) = length (buffer s)"
  "term_char (clearBuffer s) = term_char s"
  "0 < length (buffer s) \<Longrightarrow> buffer (clearBuffer s) ! 0 = NUL"
  by (simp_all add: clearBuffer_def)

text \<open>
  Claim C2, as the code has it. From a cleared buffer of \<open>C + 1\<close> bytes, bytes that do
  not contain the terminator and have at most \<open>C\<close> printable bytes among them leave,
  fed one call at a time or all in one call, the buffer holding exactly the printable
  bytes in order, followed by NUL, with \<^verbatim>\<open>_bufPos\<close> their number; a byte that is neither
  printable nor the terminator changes nothing; and the terminator then makes
  \<^verbatim>\<open>readSerial\<close> return at once with \<^verbatim>\<open>_bufPos\<close>, the object unchanged and the later
  bytes unread. The returned number is all the caller is told: it is positive, and so
  differs from the 0 returned while no terminator has arrived, exactly when a printable
  byte was stored; when none was, the call that reads the terminator returns what the
  call without it returns.
\<close>

theorem readSerial_accumulates_printable:
  assumes "length (buffer s) = Suc C" and "term_char s \<notin> set bytes"
    and "length (filter isprint bytes) \<le> C"
  shows "\<exists>s'. feedEach C bytes (clearBuffer s) = Inr s' \<and>
              readSerial C bytes (clearBuffer s) = Inr (0, [], s') \<and>
              cstr (buffer s') 0 = filter isprint bytes \<and>
              bufPos s' = length (filter isprint bytes) \<and>
              buffer s' ! bufPos s' = NUL \<and>
              (\<forall>b rest t. b \<noteq> term_char t \<and> \<not> isprint b \<longrightarrow>
                 readSerial C (b # rest) t = readSerial C rest t) \<and>
              (\<forall>rest. readSerial C (term_char s # rest) s' = Inr (int (bufPos s'), rest, s') \<and>
                 readSerial C (bytes @ term_char s # rest) (clearBuffer s)
                   = Inr (int (length (filter isprint bytes)), rest, s')) \<and>
              (filter isprint bytes \<noteq> [] \<longrightarrow> 0 < int (bufPos s')) \<and>
              (filter isprint bytes = [] \<longrightarrow>
                 readSerial C (bytes @ [term_char s]) (clearBuffer s)
                   = readSerial C bytes (clearBuffer s))"
proof -
  let ?s0 = "clearBuffer s"
  have l0: "length (buffer ?s0) = Suc C" and t0: "term_char ?s0 \<notin> set bytes"
    and b0: "bufPos ?s0 + length (filter isprint bytes) \<le> C"
    and z0: "buffer ?s0 ! bufPos ?s0 = NUL"
    using assms by (simp_all add: clearBuffer_fields)
  from readSerial_accum [OF l0 t0 b0] z0 obtain s' where
    r: "readSerial C bytes ?s0 = Inr (0, [], s')" and f: "feedEach C bytes ?s0 = Inr s'" and
    l: "length (buffer s') = Suc C" and t: "term_char s' = term_char s" and
    p: "bufPos s' = length (filter isprint bytes)" and
    tk: "take (bufPos s') (buffer s') = filter isprint bytes" and
    z: "buffer s' ! bufPos s' = NUL"
    by (auto simp: clearBuffer_fields)
  have "bufPos s' < length (buffer s')" using p l assms(3) by simp
  from printable_cstr [OF this z tk] have c: "cstr (buffer s') 0 = filter isprint bytes" .
  have stop: "\<And>rest. readSerial C (term_char s # rest) s' = Inr (int (bufPos s'), rest, s')"
    using t by simp
  have b0': "bufPos ?s0 \<le> C" by (simp add: clearBuffer_fields)
  from readSerial_run [OF l0 b0' t0] r
  have "\<And>rest. readSerial C (bytes @ rest) ?s0 = readSerial C rest s'" by auto
  then have whole: "\<And>rest. readSerial C (bytes @ term_char s # rest) ?s0
                      = Inr (int (length (filter isprint bytes)), rest, s')"
    using stop p by simp
  have skip: "\<forall>b rest t. b \<noteq> term_char t \<and> \<not> isprint b \<longrightarrow>
                 readSerial C (b # rest) t = readSerial C rest t"
    by simp
  have sig: "filter isprint bytes \<noteq> [] \<longrightarrow> 0 < int (bufPos s')" using p by simp
  have nosig: "filter isprint bytes = [] \<longrightarrow>
                 readSerial C (bytes @ [term_char s]) ?s0 = readSerial C bytes ?s0"
    using whole [of "[]"] r by simp
  from f r c p z skip stop whole sig nosig show ?thesis by blast
qed

theorem readSerial_accumulates_printable_witness:
  "length (buffer example_device) = Suc 20 \<and>
   term_char example_device \<notin> set [CHR ''O'', CHR 0x0D, CHR ''K'', CHR 0x07] \<and>
   length (filter isprint [CHR ''O'', CHR 0x0D, CHR ''K'', CHR 0x07]) \<le> 20 \<and>
   (\<exists>s'. feedEach 20 [CHR ''O'', CHR 0x0D, CHR ''K'', CHR 0x07] (clearBuffer example_device)
            = Inr s' \<and>
         cstr (buffer s') 0 = ''OK'' \<and> bufPos s' = 2 \<and>
         readSerial 20 [CHR 0x0A, CHR ''x''] s' = Inr (2, [CHR ''x''], s'))"
proof -
  let ?bs = "[CHR ''O'', CHR 0x0D, CHR ''K'', CHR 0x07]"
  have f: "filter isprint ?bs = ''OK''" by (simp add: isprint_def)
  have f2: "length (filter isprint ?bs) = 2" by (simp add: isprint_def)
  have h1: "length (buffer example_device) = Suc 20" by (simp add: example_device_def)
  have tc: "term_char example_device = CHR 0x0A" by (simp add: example_device_def)
  have h2: "term_char example_device \<notin> set ?bs" unfolding tc by simp
  have h3: "length (filter isprint ?bs) \<le> 20" unfolding f by simp
  from readSerial_accumulates_printable [OF h1 h2 h3] obtain s' where
    "feedEach 20 ?bs (clearBuffer example_device) = Inr s'"
    "cstr (buffer s') 0 = filter isprint ?bs" "bufPos s' = length (filter isprint ?bs)"
    "readSerial 20 (term_char example_device # [CHR ''x'']) s' = Inr (int (bufPos s'), [CHR ''x''], s')"
    by blast
  then have "\<exists>s'. feedEach 20 ?bs (clearBuffer example_device) = Inr s' \<and>
         cstr (buffer s') 0 = ''OK'' \<and> bufPos s' = 2 \<and>
         readSerial 20 [CHR 0x0A, CHR ''x''] s' = Inr (2, [CHR ''x''], s')"
    unfolding f2 unfolding f tc by auto
  with h1 h2 h3 show ?thesis by blast
qed

text \<open>
  The terminator does not always signal a ready line. A carriage return is within the
  claim's inputs: it is not the terminator and its printable part, empty, fits. After it
  the call that reads the terminator returns 0 and the cleared object, which is what the
  call returns when no terminator has arrived.
\<close>

theorem readSerial_empty_line_counterexample:
  "readSerial 20 [CHR 0x0D, CHR 0x0A] (clearBuffer example_device)
     = Inr (0, [], clearBuffer example_device) \<and>
   readSerial 20 [CHR 0x0D] (clearBuffer example_device)
     = Inr (0, [], clearBuffer example_device)"
  by (simp add: example_device_def clearBuffer_def isprint_def)

text \<open>
  Claim C3. Whatever bytes arrive, \<^verbatim>\<open>readSerial\<close> returns without a write outside the
  \<open>C + 1\<close> bytes of the buffer, and \<^verbatim>\<open>_bufPos\<close> stays at most \<open>C\<close>. A printable byte
  that arrives when \<^verbatim>\<open>_bufPos\<close> is \<open>C\<close> sets \<^verbatim>\<open>_bufPos\<close> to zero, and the printable
  bytes after it are stored from the start of the buffer.
\<close>

theorem readSerial_never_exceeds_capacity:
  assumes "length (buffer s) = Suc C" and "bufPos s \<le> C"
  shows "(\<exists>r rest s'. readSerial C inp s = Inr (r, rest, s') \<and>
            length (buffer s') = Suc C \<and> bufPos s' \<le> C \<and> r \<le> int C) \<and>
         (bufPos s = C \<and> isprint c \<and> c \<noteq> term_char s \<longrightarrow>
            readSerial C (c # inp) s = readSerial C inp (s\<lparr>bufPos := 0\<rparr>) \<and>
            (term_char s \<notin> set inp \<and> filter isprint inp \<noteq> [] \<and>
             length (filter isprint inp) \<le> C \<longrightarrow>
               (\<exists>s'. readSerial C (c # inp) s = Inr (0, [], s') \<and>
                     cstr (buffer s') 0 = filter isprint inp \<and>
                     bufPos s' = length (filter isprint inp))))"
proof (intro conjI impI)
  show "\<exists>r rest s'. readSerial C inp s = Inr (r, rest, s') \<and>
            length (buffer s') = Suc C \<and> bufPos s' \<le> C \<and> r \<le> int C"
    using readSerial_total [OF assms] by blast
next
  assume "bufPos s = C \<and> isprint c \<and> c \<noteq> term_char s"
  then show "readSerial C (c # inp) s = readSerial C inp (s\<lparr>bufPos := 0\<rparr>)" by simp
next
  assume full: "bufPos s = C \<and> isprint c \<and> c \<noteq> term_char s"
    and more: "term_char s \<notin> set inp \<and> filter isprint inp \<noteq> [] \<and> length (filter isprint inp) \<le> C"
  let ?s0 = "s\<lparr>bufPos := 0\<rparr>"
  have "length (buffer ?s0) = Suc C" "term_char ?s0 \<notin> set inp"
    "bufPos ?s0 + length (filter isprint inp) \<le> C"
    using assms(1) more by simp_all
  from readSerial_accum [OF this] obtain s' where
    r: "readSerial C inp ?s0 = Inr (0, [], s')" and l: "length (buffer s') = Suc C" and
    p: "bufPos s' = length (filter isprint inp)" and
    tk: "take (bufPos s') (buffer s') = filter isprint inp" and
    z: "buffer s' ! bufPos s' = NUL"
    using more by auto
  have "bufPos s' < length (buffer s')" using p l more by simp
  from printable_cstr [OF this z tk] have "cstr (buffer s') 0 = filter isprint inp" .
  moreover have "readSerial C (c # inp) s = Inr (0, [], s')" using full r by simp
  ultimately show "\<exists>s'. readSerial C (c # inp) s = Inr (0, [], s') \<and>
                     cstr (buffer s') 0 = filter isprint inp \<and>
                     bufPos s' = length (filter isprint inp)"
    using p by blast
qed

theorem readSerial_never_exceeds_capacity_witness:
  "length (buffer (example_device\<lparr>buffer := ''abc'' @ [NUL], bufPos := 3\<rparr>)) = Suc 3 \<and>
   bufPos (example_device\<lparr>buffer := ''abc'' @ [NUL], bufPos := 3\<rparr>) \<le> 3 \<and>
   (\<exists>s'. readSerial 3 ''def'' (example_device\<lparr>buffer := ''abc'' @ [NUL], bufPos := 3\<rparr>)
            = Inr (0, [], s') \<and>
         cstr (buffer s') 0 = ''ef'' \<and> bufPos s' = 2)"
proof -
  let ?s = "example_device\<lparr>buffer := ''abc'' @ [NUL], bufPos := 3\<rparr>"
  have h1: "length (buffer ?s) = Suc 3" by simp
  have h2: "bufPos ?s \<le> 3" by simp
  have h3: "bufPos ?s = 3 \<and> isprint (CHR ''d'') \<and> CHR ''d'' \<noteq> term_char ?s"
    by (simp add: isprint_def example_device_def)
  have f: "filter isprint ''ef'' = ''ef''" by (simp add: isprint_def)
  have f2: "length (filter isprint ''ef'') = 2" by (simp add: isprint_def)
  have h4: "term_char ?s \<notin> set ''ef'' \<and> filter isprint ''ef'' \<noteq> [] \<and>
            length (filter isprint ''ef'') \<le> 3"
    unfolding f by (simp add: example_device_def)
  from readSerial_never_exceeds_capacity [OF h1 h2, of "''ef''" "CHR ''d''"] h3 h4
  have "\<exists>s'. readSerial 3 (CHR ''d'' # ''ef'') ?s = Inr (0, [], s') \<and>
             cstr (buffer s') 0 = filter isprint ''ef'' \<and>
             bufPos s' = length (filter isprint ''ef'')"
    by blast
  then have "\<exists>s'. readSerial 3 ''def'' ?s = Inr (0, [], s') \<and>
             cstr (buffer s') 0 = ''ef'' \<and> bufPos s' = 2"
    unfolding f2 unfolding f .
  with h1 h2 show ?thesis by blast
qed

text \<open>
  Claim C10. \<^verbatim>\<open>readSerial\<close> returns 0 when the bytes run out before a terminator, and
  \<^verbatim>\<open>_bufPos\<close> when it reads the terminator. On a cleared buffer a lone terminator gives
  the same result as no input at all: the number 0 and the same object.
\<close>

theorem readSerial_return_value:
  assumes "length (buffer s) = Suc C" and "bufPos s \<le> C" and "term_char s \<notin> set pre"
  shows "\<exists>s1. readSerial C pre s = Inr (0, [], s1) \<and>
              readSerial C (pre @ term_char s # rest) s = Inr (int (bufPos s1), rest, s1) \<and>
              readSerial C [term_char s] (clearBuffer s) = Inr (0, [], clearBuffer s) \<and>
              readSerial C [] (clearBuffer s) = Inr (0, [], clearBuffer s)"
proof -
  from readSerial_run [OF assms] obtain s1 where
    r: "readSerial C pre s = Inr (0, [], s1)" and t: "term_char s1 = term_char s" and
    a: "\<And>rest. readSerial C (pre @ rest) s = readSerial C rest s1"
    by blast
  have "readSerial C (pre @ term_char s # rest) s = Inr (int (bufPos s1), rest, s1)"
    using a [of "term_char s # rest"] t by simp
  moreover have "readSerial C [term_char s] (clearBuffer s) = Inr (0, [], clearBuffer s)"
    by (simp add: clearBuffer_fields)
  ultimately show ?thesis using r by simp
qed

theorem readSerial_return_value_witness:
  "length (buffer example_device) = Suc 20 \<and> bufPos example_device \<le> 20 \<and>
   term_char example_device \<notin> set ''OPEN DEV1'' \<and>
   (\<exists>s1. readSerial 20 ''OPEN DEV1'' example_device = Inr (0, [], s1) \<and>
         readSerial 20 (''OPEN DEV1'' @ term_char example_device # ''x'') example_device
           = Inr (int (bufPos s1), ''x'', s1) \<and> bufPos s1 = 9) \<and>
   readSerial 20 [term_char example_device] (clearBuffer example_device)
     = readSerial 20 [] (clearBuffer example_device)"
proof -
  have h1: "length (buffer example_device) = Suc 20" by (simp add: example_device_def)
  have h2: "bufPos example_device \<le> 20" by (simp add: example_device_def)
  have h3: "term_char example_device \<notin> set ''OPEN DEV1''" by (simp add: example_device_def)
  from readSerial_return_value [OF h1 h2 h3, of "''x''"] obtain s1 where
    r: "readSerial 20 ''OPEN DEV1'' example_device = Inr (0, [], s1)" and
    t: "readSerial 20 (''OPEN DEV1'' @ term_char example_device # ''x'') example_device
           = Inr (int (bufPos s1), ''x'', s1)" and
    e: "readSerial 20 [term_char example_device] (clearBuffer example_device)
          = Inr (0, [], clearBuffer example_device)"
       "readSerial 20 [] (clearBuffer example_device) = Inr (0, [], clearBuffer example_device)"
    by blast
  have "bufPos (snd (snd (projr (readSerial 20 ''OPEN DEV1'' example_device)))) = 9"
    by code_simp
  then have "bufPos s1 = 9" unfolding r by simp
  with r t have "\<exists>s1. readSerial 20 ''OPEN DEV1'' example_device = Inr (0, [], s1) \<and>
         readSerial 20 (''OPEN DEV1'' @ term_char example_device # ''x'') example_device
           = Inr (int (bufPos s1), ''x'', s1) \<and> bufPos s1 = 9"
    by blast
  with h1 h2 h3 e show ?thesis by presburger
qed

subsection \<open>Loading a line\<close>

lemma setBuffer_loop_result:
  assumes "length (buffer s) = Suc C" and "bufPos s \<le> C" and "term_char s = t"
  shows "\<exists>s'. setBuffer_loop C str s = Inr s' \<and> length (buffer s') = Suc C \<and>
          bufPos s' = bufPos s +
            length (take (C - bufPos s) (filter isprint (takeWhile (\<lambda>c. c \<noteq> NUL \<and> c \<noteq> t) str))) \<and>
          take (bufPos s') (buffer s') = take (bufPos s) (buffer s) @
            take (C - bufPos s) (filter isprint (takeWhile (\<lambda>c. c \<noteq> NUL \<and> c \<noteq> t) str)) \<and>
          (buffer s ! bufPos s = NUL \<longrightarrow> buffer s' ! bufPos s' = NUL)"
  using assms
proof (induction str arbitrary: s)
  case Nil
  then show ?case by simp
next
  case (Cons c str)
  consider (stop) "c = NUL \<or> c = t" | (skip) "c \<noteq> NUL" "c \<noteq> t" "\<not> isprint c"
    | (full) "c \<noteq> NUL" "c \<noteq> t" "isprint c" "\<not> bufPos s < C"
    | (store) "c \<noteq> NUL" "c \<noteq> t" "isprint c" "bufPos s < C" by blast
  then show ?case
  proof cases
    case stop
    with Cons.prems show ?thesis by auto
  next
    case skip
    from Cons.IH [OF Cons.prems] skip Cons.prems(3) show ?thesis by simp
  next
    case full
    with Cons.prems show ?thesis by simp
  next
    case store
    let ?s1 = "s\<lparr>buffer := (buffer s)[bufPos s := c, Suc (bufPos s) := NUL],
                  bufPos := Suc (bufPos s)\<rparr>"
    let ?P = "filter isprint (takeWhile (\<lambda>c. c \<noteq> NUL \<and> c \<noteq> t) str)"
    have pc: "putChar s c = Inr ?s1" using store Cons.prems(1) by (simp add: putChar_ok)
    have step: "setBuffer_loop C (c # str) s = setBuffer_loop C str ?s1"
      using store Cons.prems(3) pc by simp
    have "length (buffer ?s1) = Suc C" "bufPos ?s1 \<le> C" "term_char ?s1 = t"
      using Cons.prems store by simp_all
    from Cons.IH [OF this] obtain s' where
      r: "setBuffer_loop C str ?s1 = Inr s'" and l: "length (buffer s') = Suc C" and
      p: "bufPos s' = bufPos ?s1 + length (take (C - bufPos ?s1) ?P)" and
      tk: "take (bufPos s') (buffer s') = take (bufPos ?s1) (buffer ?s1) @ take (C - bufPos ?s1) ?P" and
      z: "buffer ?s1 ! bufPos ?s1 = NUL \<longrightarrow> buffer s' ! bufPos s' = NUL"
      by blast
    have "buffer ?s1 ! bufPos ?s1 = NUL" using store Cons.prems(1) by simp
    with z have z': "buffer s' ! bufPos s' = NUL" by blast
    have tk1: "take (bufPos ?s1) (buffer ?s1) = take (bufPos s) (buffer s) @ [c]"
      using store Cons.prems(1) by (simp add: take_store)
    have P: "filter isprint (takeWhile (\<lambda>c. c \<noteq> NUL \<and> c \<noteq> t) (c # str)) = c # ?P"
      using store by simp
    have tC: "take (C - bufPos s) (c # ?P) = c # take (C - bufPos ?s1) ?P"
    proof -
      from store obtain k where k: "C - bufPos s = Suc k" by (cases "C - bufPos s") auto
      then have "C - Suc (bufPos s) = k" by simp
      with k show ?thesis by simp
    qed
    have "bufPos s' = bufPos s + length (take (C - bufPos s) (c # ?P))"
      unfolding tC using p by simp
    moreover have "take (bufPos s') (buffer s') = take (bufPos s) (buffer s) @ take (C - bufPos s) (c # ?P)"
      unfolding tC using tk tk1 by simp
    ultimately show ?thesis unfolding P step using r l z' by simp
  qed
qed

lemma setBuffer_loop_as_readSerial:
  assumes "length (buffer s) = Suc C" and "term_char s = t"
    and "bufPos s + length (filter isprint (takeWhile (\<lambda>c. c \<noteq> NUL \<and> c \<noteq> t) str)) \<le> C"
  shows "\<exists>s'. setBuffer_loop C str s = Inr s' \<and>
          readSerial C (takeWhile (\<lambda>c. c \<noteq> NUL \<and> c \<noteq> t) str) s = Inr (0, [], s')"
  using assms
proof (induction str arbitrary: s)
  case Nil
  then show ?case by simp
next
  case (Cons c str)
  consider (stop) "c = NUL \<or> c = t" | (skip) "c \<noteq> NUL" "c \<noteq> t" "\<not> isprint c"
    | (store) "c \<noteq> NUL" "c \<noteq> t" "isprint c" by blast
  then show ?case
  proof cases
    case stop
    with Cons.prems show ?thesis by auto
  next
    case skip
    with Cons.prems have "bufPos s + length (filter isprint (takeWhile (\<lambda>c. c \<noteq> NUL \<and> c \<noteq> t) str)) \<le> C"
      by simp
    from Cons.IH [OF Cons.prems(1,2) this] skip Cons.prems(2) show ?thesis by simp
  next
    case store
    with Cons.prems have lt: "bufPos s < C" by simp
    let ?s1 = "s\<lparr>buffer := (buffer s)[bufPos s := c, Suc (bufPos s) := NUL],
                  bufPos := Suc (bufPos s)\<rparr>"
    have pc: "putChar s c = Inr ?s1" using lt Cons.prems(1) by (simp add: putChar_ok)
    have "length (buffer ?s1) = Suc C" "term_char ?s1 = t"
      "bufPos ?s1 + length (filter isprint (takeWhile (\<lambda>c. c \<noteq> NUL \<and> c \<noteq> t) str)) \<le> C"
      using Cons.prems store by simp_all
    from Cons.IH [OF this] store lt pc Cons.prems(2) show ?thesis by simp
  qed
qed

text \<open>
  Claim C8. \<^verbatim>\<open>setBuffer\<close> clears the buffer and then stores the printable bytes of the
  string up to its end, its first NUL or the first terminator, whichever comes first, as
  \<^verbatim>\<open>readSerial\<close> does from a cleared buffer when they fit. When they do not fit, it
  keeps the first \<open>C\<close> of them and returns with \<^verbatim>\<open>_bufPos\<close> at \<open>C\<close>, where
  \<^verbatim>\<open>readSerial\<close> would set \<^verbatim>\<open>_bufPos\<close> to zero.
\<close>

theorem setBuffer_truncates:
  assumes "length (buffer s) = Suc C"
  shows "\<exists>s'. setBuffer C str s = Inr s' \<and>
          cstr (buffer s') 0
            = take C (filter isprint (takeWhile (\<lambda>c. c \<noteq> NUL \<and> c \<noteq> term_char s) str)) \<and>
          bufPos s'
            = min C (length (filter isprint (takeWhile (\<lambda>c. c \<noteq> NUL \<and> c \<noteq> term_char s) str))) \<and>
          buffer s' ! bufPos s' = NUL \<and>
          (length (filter isprint (takeWhile (\<lambda>c. c \<noteq> NUL \<and> c \<noteq> term_char s) str)) \<le> C \<longrightarrow>
             readSerial C (takeWhile (\<lambda>c. c \<noteq> NUL \<and> c \<noteq> term_char s) str) (clearBuffer s)
               = Inr (0, [], s'))"
proof -
  let ?s0 = "clearBuffer s"
  let ?X = "takeWhile (\<lambda>c. c \<noteq> NUL \<and> c \<noteq> term_char s) str"
  let ?P = "filter isprint ?X"
  have l0: "length (buffer ?s0) = Suc C" and b0: "bufPos ?s0 \<le> C"
    and t0: "term_char ?s0 = term_char s" and z0: "buffer ?s0 ! bufPos ?s0 = NUL"
    using assms by (simp_all add: clearBuffer_fields)
  from setBuffer_loop_result [OF l0 b0 t0, of str] obtain s' where
    r: "setBuffer_loop C str ?s0 = Inr s'" and l: "length (buffer s') = Suc C" and
    p0: "bufPos s' = bufPos ?s0 + length (take (C - bufPos ?s0) ?P)" and
    tk0: "take (bufPos s') (buffer s') = take (bufPos ?s0) (buffer ?s0) @ take (C - bufPos ?s0) ?P" and
    z1: "buffer ?s0 ! bufPos ?s0 = NUL \<longrightarrow> buffer s' ! bufPos s' = NUL"
    by blast
  have p: "bufPos s' = length (take C ?P)" using p0 by (simp add: clearBuffer_fields)
  have tk: "take (bufPos s') (buffer s') = take C ?P" using tk0 by (simp add: clearBuffer_fields)
  have z: "buffer s' ! bufPos s' = NUL" using z1 z0 by blast
  have lt: "bufPos s' < length (buffer s')" using p l by simp
  have "\<forall>c \<in> set (take C ?P). c \<noteq> NUL"
  proof
    fix c assume "c \<in> set (take C ?P)"
    then have "c \<in> set ?P" by (rule in_set_takeD)
    then have "isprint c" by simp
    then show "c \<noteq> NUL" by (rule isprint_not_NUL)
  qed
  then have "\<forall>c \<in> set (take (bufPos s') (buffer s')). c \<noteq> NUL" unfolding tk .
  from cstr_0_take [OF lt z this] have c: "cstr (buffer s') 0 = take C ?P" unfolding tk .
  have m: "bufPos s' = min C (length ?P)" using p by (simp add: min.commute)
  have same: "readSerial C ?X ?s0 = Inr (0, [], s')" if "length ?P \<le> C"
  proof -
    have "bufPos ?s0 + length ?P \<le> C" using that by (simp add: clearBuffer_fields)
    from setBuffer_loop_as_readSerial [OF l0 t0 this] r show ?thesis by simp
  qed
  have "setBuffer C str s = Inr s'" using r by (simp add: setBuffer_def)
  with c m z same show ?thesis by blast
qed

theorem setBuffer_truncates_witness:
  "length (buffer (example_device\<lparr>buffer := replicate 4 (CHR ''#'')\<rparr>)) = Suc 3 \<and>
   (\<exists>s'. setBuffer 3 [CHR ''a'', CHR ''b'', CHR 0x09, CHR ''c'', CHR ''d'', CHR 0x0A, CHR ''e'']
            (example_device\<lparr>buffer := replicate 4 (CHR ''#'')\<rparr>) = Inr s' \<and>
         cstr (buffer s') 0 = ''abc'' \<and> bufPos s' = 3) \<and>
   (\<exists>s'. setBuffer 3 [CHR ''a'', CHR 0x09, CHR ''b'', CHR 0x0A, CHR ''e'']
            (example_device\<lparr>buffer := replicate 4 (CHR ''#'')\<rparr>) = Inr s' \<and>
         cstr (buffer s') 0 = ''ab'' \<and> bufPos s' = 2 \<and>
         readSerial 3 [CHR ''a'', CHR 0x09, CHR ''b'']
            (clearBuffer (example_device\<lparr>buffer := replicate 4 (CHR ''#'')\<rparr>)) = Inr (0, [], s'))"
proof -
  let ?s = "example_device\<lparr>buffer := replicate 4 (CHR ''#'')\<rparr>"
  let ?t1 = "[CHR ''a'', CHR ''b'', CHR 0x09, CHR ''c'', CHR ''d'', CHR 0x0A, CHR ''e'']"
  let ?t2 = "[CHR ''a'', CHR 0x09, CHR ''b'', CHR 0x0A, CHR ''e'']"
  have h: "length (buffer ?s) = Suc 3" by simp
  have tc: "term_char ?s = CHR 0x0A" by (simp add: example_device_def)
  have x1: "takeWhile (\<lambda>c. c \<noteq> NUL \<and> c \<noteq> CHR 0x0A) ?t1 = [CHR ''a'', CHR ''b'', CHR 0x09, CHR ''c'', CHR ''d'']"
    by simp
  have p1: "filter isprint [CHR ''a'', CHR ''b'', CHR 0x09, CHR ''c'', CHR ''d''] = ''abcd''"
    by (simp add: isprint_def)
  have x2: "takeWhile (\<lambda>c. c \<noteq> NUL \<and> c \<noteq> CHR 0x0A) ?t2 = [CHR ''a'', CHR 0x09, CHR ''b'']"
    by simp
  have p2: "filter isprint [CHR ''a'', CHR 0x09, CHR ''b''] = ''ab''"
    by (simp add: isprint_def)
  let ?Q = "\<lambda>c. c \<noteq> NUL \<and> c \<noteq> term_char ?s"
  from setBuffer_truncates [OF h, of ?t1] obtain s1 where
    a1: "setBuffer 3 ?t1 ?s = Inr s1" and
    b1: "cstr (buffer s1) 0 = take 3 (filter isprint (takeWhile ?Q ?t1))" and
    c1: "bufPos s1 = min 3 (length (filter isprint (takeWhile ?Q ?t1)))"
    by blast
  have f1: "take 3 (filter isprint (takeWhile ?Q ?t1)) = ''abc''" unfolding tc x1 p1 by simp
  have f2: "min 3 (length (filter isprint (takeWhile ?Q ?t1))) = 3" unfolding tc x1 p1 by simp
  have "setBuffer 3 ?t1 ?s = Inr s1 \<and> cstr (buffer s1) 0 = ''abc'' \<and> bufPos s1 = 3"
    using a1 b1 [unfolded f1] c1 [unfolded f2] by (intro conjI)
  then have r1: "\<exists>s'. setBuffer 3 ?t1 ?s = Inr s' \<and> cstr (buffer s') 0 = ''abc'' \<and> bufPos s' = 3"
    by (rule exI)
  from setBuffer_truncates [OF h, of ?t2] obtain s2 where
    a2: "setBuffer 3 ?t2 ?s = Inr s2" and
    b2: "cstr (buffer s2) 0 = take 3 (filter isprint (takeWhile ?Q ?t2))" and
    c2: "bufPos s2 = min 3 (length (filter isprint (takeWhile ?Q ?t2)))" and
    d2: "length (filter isprint (takeWhile ?Q ?t2)) \<le> 3 \<longrightarrow>
           readSerial 3 (takeWhile ?Q ?t2) (clearBuffer ?s) = Inr (0, [], s2)"
    by blast
  have e1: "take 3 (filter isprint (takeWhile ?Q ?t2)) = ''ab''" unfolding tc x2 p2 by simp
  have e2: "min 3 (length (filter isprint (takeWhile ?Q ?t2))) = 2" unfolding tc x2 p2 by simp
  have e3: "length (filter isprint (takeWhile ?Q ?t2)) \<le> 3" unfolding tc x2 p2 by simp
  have e4: "takeWhile ?Q ?t2 = [CHR ''a'', CHR 0x09, CHR ''b'']" unfolding tc x2 ..
  from d2 e3 have "readSerial 3 (takeWhile ?Q ?t2) (clearBuffer ?s) = Inr (0, [], s2)" by blast
  then have g: "readSerial 3 [CHR ''a'', CHR 0x09, CHR ''b''] (clearBuffer ?s) = Inr (0, [], s2)"
    unfolding e4 .
  have "setBuffer 3 ?t2 ?s = Inr s2 \<and> cstr (buffer s2) 0 = ''ab'' \<and> bufPos s2 = 2 \<and>
         readSerial 3 [CHR ''a'', CHR 0x09, CHR ''b''] (clearBuffer ?s) = Inr (0, [], s2)"
    using a2 b2 [unfolded e1] c2 [unfolded e2] g by (intro conjI)
  then have r2: "\<exists>s'. setBuffer 3 ?t2 ?s = Inr s' \<and> cstr (buffer s') 0 = ''ab'' \<and> bufPos s' = 2 \<and>
         readSerial 3 [CHR ''a'', CHR 0x09, CHR ''b''] (clearBuffer ?s) = Inr (0, [], s')"
    by (rule exI)
  from h r1 r2 show ?thesis by blast
qed

subsection \<open>The tokenizer\<close>

lemma spec_tokens_skip_delim: "d \<in> set dl \<Longrightarrow> spec_tokens dl (d # xs) = spec_tokens dl xs"
  by (subst spec_tokens.simps, subst (2) spec_tokens.simps) simp

lemma spec_tokens_Nil [simp]: "spec_tokens dl [] = []"
  by (subst spec_tokens.simps) simp

lemma spec_tokens_empty_iff: "spec_tokens dl line = [] \<longleftrightarrow> set line \<subseteq> set dl"
proof -
  have "spec_tokens dl line = [] \<longleftrightarrow> dropWhile (\<lambda>c. c \<in> set dl) line = []"
    by (subst spec_tokens.simps) (simp add: Let_def)
  also have "\<dots> \<longleftrightarrow> set line \<subseteq> set dl" by (auto simp: dropWhile_eq_Nil_conv)
  finally show ?thesis .
qed

lemma takeWhile_upto_NUL:
  "NUL \<notin> set xs \<Longrightarrow> takeWhile (\<lambda>c. c \<noteq> NUL \<and> R c) (xs @ NUL # ys) = takeWhile R xs"
  by (induction xs) auto

lemma cstr_at:
  "NUL \<notin> set xs \<Longrightarrow> length pre = p \<Longrightarrow> cstr (pre @ xs @ NUL # post) p = xs"
  using takeWhile_upto_NUL [of xs "\<lambda>c. True" post] by (simp add: cstr_def)

lemma cstr_split:
  assumes "NUL \<in> set (drop p mem)"
  shows "\<exists>post. mem = take p mem @ cstr mem p @ NUL # post \<and> length (take p mem) = p \<and>
          NUL \<notin> set (cstr mem p)"
proof -
  let ?d = "dropWhile (\<lambda>c. c \<noteq> NUL) (drop p mem)"
  have ne: "?d \<noteq> []" using assms by (auto simp: dropWhile_eq_Nil_conv)
  from hd_dropWhile [OF this] have "hd ?d = NUL" by simp
  with ne obtain post where d: "?d = NUL # post" by (cases ?d) auto
  have "drop p mem = cstr mem p @ ?d" by (simp add: cstr_def)
  then have "mem = take p mem @ cstr mem p @ NUL # post"
    using d by (metis append_take_drop_id)
  moreover have "p < length mem" using assms by (cases "p < length mem") auto
  moreover have "NUL \<notin> set (cstr mem p)"
    unfolding cstr_def using set_takeWhileD by fastforce
  ultimately show ?thesis by auto
qed


lemma strtok_r_decomposed:
  fixes dl line :: string
  assumes nn: "NUL \<notin> set line" and lp: "length pre = p"
  defines "ds \<equiv> takeWhile (\<lambda>c. c \<in> set dl) line"
    and "rest \<equiv> dropWhile (\<lambda>c. c \<in> set dl) line"
  defines "tok \<equiv> takeWhile (\<lambda>c. c \<notin> set dl) rest"
    and "rem \<equiv> dropWhile (\<lambda>c. c \<notin> set dl) rest"
  shows "strtok_r (pre @ line @ NUL # post) None dl (Some p) =
     (if rest = [] then Inr (None, pre @ line @ NUL # post, Some (p + length line))
      else if rem = [] then
        Inr (Some (p + length ds), pre @ line @ NUL # post, Some (p + length line))
      else Inr (Some (p + length ds), pre @ ds @ tok @ NUL # tl rem @ NUL # post,
                Some (Suc (p + length ds + length tok))))"
proof -
  let ?mem = "pre @ line @ NUL # post"
  let ?q = "p + length ds"
  let ?e = "?q + length tok"
  have line: "line = ds @ rest" by (simp add: ds_def rest_def)
  have rest: "rest = tok @ rem" by (simp add: tok_def rem_def)
  have nrest: "NUL \<notin> set rest" using nn line by (metis Un_iff set_append)
  have dp: "drop p ?mem = line @ NUL # post" using lp by simp
  have sp: "strspn_at ?mem p dl = length ds"
    unfolding strspn_at_def dp ds_def using takeWhile_upto_NUL [OF nn] by simp
  have memq: "?mem = (pre @ ds) @ rest @ NUL # post" using line by simp
  have lq: "length (pre @ ds) = ?q" using lp by simp
  have dq: "drop ?q ?mem = rest @ NUL # post"
    unfolding memq lq [symmetric] by simp
  have nq: "?mem ! ?q = hd (rest @ [NUL])"
    unfolding memq lq [symmetric] by (cases rest) (simp_all add: nth_append)
  have qlt: "\<not> length ?mem \<le> ?q"
  proof -
    have "length ?mem = ?q + length rest + Suc (length post)"
      unfolding memq lq [symmetric] by simp
    then show ?thesis by simp
  qed
  have csp: "strcspn_at ?mem ?q dl = length tok"
    unfolding strcspn_at_def dq tok_def using takeWhile_upto_NUL [OF nrest] by simp
  have meme: "?mem = (pre @ ds @ tok) @ rem @ NUL # post" using line rest by simp
  have le: "length (pre @ ds @ tok) = ?e" using lp by simp
  have ne: "?mem ! ?e = hd (rem @ [NUL])"
    unfolding meme le [symmetric] by (cases rem) (simp_all add: nth_append)
  have elt: "\<not> length ?mem \<le> ?e"
  proof -
    have "length ?mem = ?e + length rem + Suc (length post)"
      unfolding meme le [symmetric] by simp
    then show ?thesis by simp
  qed
  show ?thesis
  proof (cases "rest = []")
    case True
    then have "length ds = length line" using line by simp
    with True nq qlt sp show ?thesis by (simp add: strtok_r_def Let_def)
  next
    case False
    then have hq: "?mem ! ?q \<noteq> NUL" using nq nrest by (cases rest) auto
    show ?thesis
    proof (cases "rem = []")
      case True
      then have "length line = length ds + length tok" using line rest by simp
      with True False hq ne qlt elt sp csp show ?thesis
        by (simp add: strtok_r_def Let_def)
    next
      case rne: False
      then obtain d rem' where d: "rem = d # rem'" by (cases rem) auto
      have "d \<noteq> NUL" using nrest rest d by auto
      then have he: "?mem ! ?e \<noteq> NUL" using ne d by simp
      have "?mem[?e := NUL] = (pre @ ds @ tok) @ NUL # rem' @ NUL # post"
        unfolding meme le [symmetric] d by (simp add: list_update_append)
      then have "?mem[?e := NUL] = pre @ ds @ tok @ NUL # tl rem @ NUL # post"
        using d by simp
      with rne False hq he qlt elt sp csp show ?thesis
        by (simp add: strtok_r_def Let_def)
    qed
  qed
qed


lemma strtok_r_Some: "strtok_r mem (Some p) dl sp = strtok_r mem None dl (Some p)"
  by (simp add: strtok_r_def)

lemma strtok_r_step:
  assumes "NUL \<in> set (drop p mem)"
  shows "\<exists>tok mem' l. strtok_r mem None dl (Some p) = Inr (tok, mem', Some l) \<and>
           length mem' = length mem \<and> NUL \<in> set (drop l mem') \<and>
           (case tok of
              None \<Rightarrow> spec_tokens dl (cstr mem p) = [] \<and> spec_tokens dl (cstr mem' l) = [] \<and> mem' = mem
            | Some q \<Rightarrow> spec_tokens dl (cstr mem p) = cstr mem' q # spec_tokens dl (cstr mem' l))"
proof -
  from cstr_split [OF assms] obtain post where
    mem: "mem = take p mem @ cstr mem p @ NUL # post" and lp: "length (take p mem) = p" and
    nn: "NUL \<notin> set (cstr mem p)"
    by blast
  define pre where "pre = take p mem"
  define line where "line = cstr mem p"
  define ds where "ds = takeWhile (\<lambda>c. c \<in> set dl) line"
  define rest where "rest = dropWhile (\<lambda>c. c \<in> set dl) line"
  define tok where "tok = takeWhile (\<lambda>c. c \<notin> set dl) rest"
  define rem where "rem = dropWhile (\<lambda>c. c \<notin> set dl) rest"
  have m: "mem = pre @ line @ NUL # post" using mem by (simp add: pre_def line_def)
  have lpre: "length pre = p" using lp by (simp add: pre_def)
  have nl: "NUL \<notin> set line" using nn by (simp add: line_def)
  have line: "line = ds @ rest" by (simp add: ds_def rest_def)
  have rest: "rest = tok @ rem" by (simp add: tok_def rem_def)
  have ntok: "NUL \<notin> set tok" and nrem: "NUL \<notin> set rem" using nl line rest by auto
  have T: "spec_tokens dl line = (if rest = [] then [] else tok # spec_tokens dl rem)"
    by (subst spec_tokens.simps) (simp add: Let_def rest_def tok_def rem_def)
  have D: "strtok_r mem None dl (Some p) =
     (if rest = [] then Inr (None, mem, Some (p + length line))
      else if rem = [] then Inr (Some (p + length ds), mem, Some (p + length line))
      else Inr (Some (p + length ds), pre @ ds @ tok @ NUL # tl rem @ NUL # post,
                Some (Suc (p + length ds + length tok))))"
    using strtok_r_decomposed [OF nl lpre, where dl = dl and post = post]
    unfolding ds_def rest_def tok_def rem_def m [symmetric] .
  have endp: "cstr mem (p + length line) = []"
  proof -
    have "mem = (pre @ line) @ [] @ NUL # post" using m by simp
    then have "cstr mem (length (pre @ line)) = []" by (metis cstr_at empty_iff list.set(1))
    then show ?thesis using lpre by simp
  qed
  have dend: "NUL \<in> set (drop (p + length line) mem)"
  proof -
    have "drop (length (pre @ line)) ((pre @ line) @ NUL # post) = NUL # post" by simp
    then show ?thesis using m lpre by simp
  qed
  show ?thesis
  proof (cases "rest = []")
    case True
    with D T endp dend show ?thesis by (simp add: line_def)
  next
    case False
    show ?thesis
    proof (cases "rem = []")
      case True
      have "mem = (pre @ ds) @ tok @ NUL # post" using m line rest True by simp
      then have "cstr mem (length (pre @ ds)) = tok" using ntok by (metis cstr_at)
      then have "cstr mem (p + length ds) = tok" using lpre by simp
      with True False D T endp dend show ?thesis by (simp add: line_def)
    next
      case rne: False
      then obtain d rem' where d: "rem = d # rem'" by (cases rem) auto
      have "rem \<noteq> []" using rne .
      from hd_dropWhile [of "\<lambda>c. c \<notin> set dl" rest] this have "d \<in> set dl"
        using d by (simp add: rem_def)
      then have Trem: "spec_tokens dl rem = spec_tokens dl rem'" using d by (simp add: spec_tokens_skip_delim)
      let ?mem' = "pre @ ds @ tok @ NUL # tl rem @ NUL # post"
      have nrem': "NUL \<notin> set rem'" using nrem d by simp
      have "?mem' = (pre @ ds) @ tok @ NUL # (rem' @ NUL # post)" using d by simp
      then have "cstr ?mem' (length (pre @ ds)) = tok" using ntok by (metis cstr_at)
      then have c1: "cstr ?mem' (p + length ds) = tok" using lpre by simp
      have "?mem' = (pre @ ds @ tok @ [NUL]) @ rem' @ NUL # post" using d by simp
      then have "cstr ?mem' (length (pre @ ds @ tok @ [NUL])) = rem'"
        using nrem' by (metis cstr_at)
      then have c2: "cstr ?mem' (Suc (p + length ds + length tok)) = rem'"
        using lpre by (simp add: add.assoc)
      have "drop (length (pre @ ds @ tok @ [NUL])) ((pre @ ds @ tok @ [NUL]) @ rem' @ NUL # post)
              = rem' @ NUL # post"
        by simp
      then have "drop (Suc (p + length ds + length tok)) ?mem' = rem' @ NUL # post"
        using d lpre by (simp add: add.assoc)
      then have c3: "NUL \<in> set (drop (Suc (p + length ds + length tok)) ?mem')" by simp
      have c4: "length ?mem' = length mem" using m line rest d by simp
      from rne False D T Trem c1 c2 c3 c4 show ?thesis by (simp add: line_def)
    qed
  qed
qed

subsection \<open>Dispatch\<close>

lemma strcmp_eq_0_iff: "strcmp a b = 0 \<longleftrightarrow> a = b"
  by (induction a b rule: strcmp.induct) auto

lemma two_tokens:
  assumes "NUL \<in> set mem"
  shows "\<exists>nm mem1 l1 identifier mem2 l2.
           strtok_r mem (Some 0) dl sp = Inr (nm, mem1, Some l1) \<and>
           strtok_r mem1 None dl (Some l1) = Inr (identifier, mem2, Some l2) \<and>
           length mem2 = length mem \<and>
           (case identifier of
              None \<Rightarrow> length (spec_tokens dl (cstr mem 0)) < 2
            | Some i \<Rightarrow> 2 \<le> length (spec_tokens dl (cstr mem 0)) \<and>
                        cstr mem2 i = spec_tokens dl (cstr mem 0) ! 1)"
proof -
  have "NUL \<in> set (drop 0 mem)" using assms by simp
  from strtok_r_step [OF this, of dl] obtain nm mem1 l1 where
    a: "strtok_r mem None dl (Some 0) = Inr (nm, mem1, Some l1)" and
    la: "length mem1 = length mem" and na: "NUL \<in> set (drop l1 mem1)" and
    ta: "case nm of
           None \<Rightarrow> spec_tokens dl (cstr mem 0) = [] \<and> spec_tokens dl (cstr mem1 l1) = [] \<and> mem1 = mem
         | Some q \<Rightarrow> spec_tokens dl (cstr mem 0) = cstr mem1 q # spec_tokens dl (cstr mem1 l1)"
    by blast
  from strtok_r_step [OF na, of dl] obtain idn mem2 l2 where
    b: "strtok_r mem1 None dl (Some l1) = Inr (idn, mem2, Some l2)" and
    lb: "length mem2 = length mem1" and
    tb: "case idn of
           None \<Rightarrow> spec_tokens dl (cstr mem1 l1) = [] \<and> spec_tokens dl (cstr mem2 l2) = [] \<and> mem2 = mem1
         | Some q \<Rightarrow> spec_tokens dl (cstr mem1 l1) = cstr mem2 q # spec_tokens dl (cstr mem2 l2)"
    by blast
  have "case idn of
          None \<Rightarrow> length (spec_tokens dl (cstr mem 0)) < 2
        | Some i \<Rightarrow> 2 \<le> length (spec_tokens dl (cstr mem 0)) \<and>
                    cstr mem2 i = spec_tokens dl (cstr mem 0) ! 1"
    using ta tb by (cases nm; cases idn) auto
  with a b la lb show ?thesis by (simp add: strtok_r_Some)
qed

text \<open>
  Claim C1 does not hold of the code. When a device type is configured and the line has
  fewer than two tokens, the second \<^verbatim>\<open>strtok_r\<close> returns \<^verbatim>\<open>NULL\<close> and
  \<^verbatim>\<open>processCommand\<close> passes it to \<^verbatim>\<open>strcmp\<close>, which reads through the null pointer:
  the comparison is not a deterministic non-match, and the buffer is not cleared.
\<close>

theorem processCommand_missing_identifier:
  assumes "NUL \<in> set (buffer s)" and "device_type s = Some d"
    and "length (spec_tokens (delim s) (cstr (buffer s) 0)) < 2"
  shows "processCommand s = Inl NullDeref"
proof -
  from two_tokens [OF assms(1), of "delim s" "last_ptr s"] obtain nm mem1 l1 idn mem2 l2
    where a: "strtok_r (buffer s) (Some 0) (delim s) (last_ptr s) = Inr (nm, mem1, Some l1)"
      and b: "strtok_r mem1 None (delim s) (Some l1) = Inr (idn, mem2, Some l2)"
      and c: "case idn of
                None \<Rightarrow> length (spec_tokens (delim s) (cstr (buffer s) 0)) < 2
              | Some i \<Rightarrow> 2 \<le> length (spec_tokens (delim s) (cstr (buffer s) 0)) \<and>
                          cstr mem2 i = spec_tokens (delim s) (cstr (buffer s) 0) ! 1"
    by blast
  from c assms(3) have "idn = None" by (cases idn) auto
  with a b assms(2) show ?thesis by (simp add: processCommand_def)
qed

theorem processCommand_missing_identifier_witness:
  "NUL \<in> set (buffer (with_line ''OPEN'')) \<and>
   device_type (with_line ''OPEN'') = Some ''DEV1'' \<and>
   spec_tokens (delim (with_line ''OPEN'')) (cstr (buffer (with_line ''OPEN'')) 0) = [''OPEN''] \<and>
   processCommand (with_line ''OPEN'') = Inl NullDeref"
proof -
  have h1: "NUL \<in> set (buffer (with_line ''OPEN''))" by code_simp
  have h2: "device_type (with_line ''OPEN'') = Some ''DEV1''" by code_simp
  have tk: "spec_tokens (delim (with_line ''OPEN'')) (cstr (buffer (with_line ''OPEN'')) 0)
              = [''OPEN'']"
    by code_simp
  then have h3: "length (spec_tokens (delim (with_line ''OPEN''))
                   (cstr (buffer (with_line ''OPEN'')) 0)) < 2"
    by simp
  from processCommand_missing_identifier [OF h1 h2 h3] h1 h2 tk show ?thesis by blast
qed

text \<open>
  Claim C4. For a buffer that holds a string, \<^verbatim>\<open>processCommand\<close> calls no handler,
  neither a registered one nor the default one, when no device type is configured, and
  when the line has a second token that differs from the configured device type. In
  both cases the buffer is cleared.
\<close>

theorem processCommand_wrong_device:
  assumes "NUL \<in> set (buffer s)"
  shows "(device_type s = None \<longrightarrow>
            (\<exists>s'. processCommand s = Inr (None, s') \<and> bufPos s' = 0 \<and> buffer s' ! 0 = NUL)) \<and>
         (\<forall>d. device_type s = Some d \<and>
              2 \<le> length (spec_tokens (delim s) (cstr (buffer s) 0)) \<and>
              spec_tokens (delim s) (cstr (buffer s) 0) ! 1 \<noteq> d \<longrightarrow>
            (\<exists>s'. processCommand s = Inr (None, s') \<and> bufPos s' = 0 \<and> buffer s' ! 0 = NUL))"
proof -
  from two_tokens [OF assms(1), of "delim s" "last_ptr s"] obtain nm mem1 l1 idn mem2 l2
    where a: "strtok_r (buffer s) (Some 0) (delim s) (last_ptr s) = Inr (nm, mem1, Some l1)"
      and b: "strtok_r mem1 None (delim s) (Some l1) = Inr (idn, mem2, Some l2)"
      and l: "length mem2 = length (buffer s)"
      and c: "case idn of
                None \<Rightarrow> length (spec_tokens (delim s) (cstr (buffer s) 0)) < 2
              | Some i \<Rightarrow> 2 \<le> length (spec_tokens (delim s) (cstr (buffer s) 0)) \<and>
                          cstr mem2 i = spec_tokens (delim s) (cstr (buffer s) 0) ! 1"
    by blast
  have pos: "0 < length mem2" using l assms by (cases "buffer s") auto
  let ?s2 = "s\<lparr>buffer := mem2, last_ptr := Some l2\<rparr>"
  have cl: "bufPos (clearBuffer ?s2) = 0 \<and> buffer (clearBuffer ?s2) ! 0 = NUL"
    using pos by (simp add: clearBuffer_fields)
  have none: "device_type s = None \<Longrightarrow> processCommand s = Inr (None, clearBuffer ?s2)"
    using a b by (simp add: processCommand_def)
  have wrong: "processCommand s = Inr (None, clearBuffer ?s2)"
    if "device_type s = Some d" "2 \<le> length (spec_tokens (delim s) (cstr (buffer s) 0))"
      "spec_tokens (delim s) (cstr (buffer s) 0) ! 1 \<noteq> d" for d
  proof -
    from c that(2) obtain i where i: "idn = Some i"
      and ci: "cstr mem2 i = spec_tokens (delim s) (cstr (buffer s) 0) ! 1"
      by (cases idn) auto
    from ci that(3) have "strcmp (cstr mem2 i) d \<noteq> 0" by (simp add: strcmp_eq_0_iff)
    with a b i that(1) show ?thesis by (simp add: processCommand_def)
  qed
  from none wrong cl show ?thesis by metis
qed

theorem processCommand_wrong_device_witness:
  "NUL \<in> set (buffer (with_line ''OPEN DEV2 x'')) \<and>
   device_type (with_line ''OPEN DEV2 x'') = Some ''DEV1'' \<and>
   spec_tokens (delim (with_line ''OPEN DEV2 x'')) (cstr (buffer (with_line ''OPEN DEV2 x'')) 0)
     = [''OPEN'', ''DEV2'', ''x''] \<and>
   (\<exists>s'. processCommand (with_line ''OPEN DEV2 x'') = Inr (None, s') \<and>
         bufPos s' = 0 \<and> buffer s' ! 0 = NUL) \<and>
   NUL \<in> set (buffer ((with_line ''OPEN DEV1'')\<lparr>device_type := None\<rparr>)) \<and>
   (\<exists>s'. processCommand ((with_line ''OPEN DEV1'')\<lparr>device_type := None\<rparr>) = Inr (None, s') \<and>
         bufPos s' = 0 \<and> buffer s' ! 0 = NUL)"
proof -
  let ?w = "with_line ''OPEN DEV2 x''"
  let ?n = "(with_line ''OPEN DEV1'')\<lparr>device_type := None\<rparr>"
  have h1: "NUL \<in> set (buffer ?w)" by code_simp
  have h2: "device_type ?w = Some ''DEV1''" by code_simp
  have tk: "spec_tokens (delim ?w) (cstr (buffer ?w) 0) = [''OPEN'', ''DEV2'', ''x'']"
    by code_simp
  have h3: "2 \<le> length (spec_tokens (delim ?w) (cstr (buffer ?w) 0)) \<and>
            spec_tokens (delim ?w) (cstr (buffer ?w) 0) ! 1 \<noteq> ''DEV1''"
    unfolding tk by simp
  from processCommand_wrong_device [OF h1] h2 h3
  have r1: "\<exists>s'. processCommand ?w = Inr (None, s') \<and> bufPos s' = 0 \<and> buffer s' ! 0 = NUL"
    by blast
  have h4: "NUL \<in> set (buffer ?n)" by code_simp
  have h5: "device_type ?n = None" by simp
  from processCommand_wrong_device [OF h4] h5
  have r2: "\<exists>s'. processCommand ?n = Inr (None, s') \<and> bufPos s' = 0 \<and> buffer s' ! 0 = NUL"
    by blast
  from h1 h2 tk r1 h4 r2 show ?thesis by blast
qed

text \<open>
  Claim C6. On the line \<^verbatim>\<open>"OPEN DEV1 arg1 arg2"\<close> the two \<^verbatim>\<open>strtok_r\<close> calls of
  \<^verbatim>\<open>processCommand\<close> return the tokens at offsets 0 and 5, the handler is called with the
  cursor at offset 10, and its calls of \<^verbatim>\<open>next\<close> return the tokens at offsets 10 and 15
  and then \<^verbatim>\<open>NULL\<close>; the four tokens read \<^verbatim>\<open>OPEN\<close>, \<^verbatim>\<open>DEV1\<close>, \<^verbatim>\<open>arg1\<close>, \<^verbatim>\<open>arg2\<close>.
  In general, with the cursor inside a NUL-terminated line, \<^verbatim>\<open>next\<close> returns \<^verbatim>\<open>NULL\<close>
  exactly when the rest of the line has no token, that is, holds delimiters only;
  otherwise it returns the first remaining token and leaves the cursor before the others.
\<close>

theorem next_token_spec_tokens:
  "(\<exists>m1 m2 snap fin s1 s2 s3.
      strtok_r (buffer (with_line ''OPEN DEV1 arg1 arg2'')) (Some 0) '' '' None
        = Inr (Some 0, m1, Some 5) \<and>
      strtok_r m1 None '' '' (Some 5) = Inr (Some 5, m2, Some 10) \<and>
      processCommand (with_line ''OPEN DEV1 arg1 arg2'') = Inr (Some (1, snap), fin) \<and>
      buffer snap = m2 \<and> last_ptr snap = Some 10 \<and> delim snap = '' '' \<and>
      next_token snap = Inr (Some 10, s1) \<and>
      next_token s1 = Inr (Some 15, s2) \<and>
      next_token s2 = Inr (None, s3) \<and>
      map (cstr (buffer s3)) [0, 5, 10, 15] = [''OPEN'', ''DEV1'', ''arg1'', ''arg2'']) \<and>
   (\<forall>s p. last_ptr s = Some p \<and> NUL \<in> set (drop p (buffer s)) \<longrightarrow>
      (\<exists>tok s' l. next_token s = Inr (tok, s') \<and> last_ptr s' = Some l \<and>
         NUL \<in> set (drop l (buffer s')) \<and>
         (tok = None \<longleftrightarrow> spec_tokens (delim s) (cstr (buffer s) p) = []) \<and>
         (tok = None \<longleftrightarrow> set (cstr (buffer s) p) \<subseteq> set (delim s)) \<and>
         (\<forall>q. tok = Some q \<longrightarrow>
            spec_tokens (delim s) (cstr (buffer s) p)
              = cstr (buffer s') q # spec_tokens (delim s') (cstr (buffer s') l))))"
proof (intro conjI allI impI)
  show "\<exists>m1 m2 snap fin s1 s2 s3.
      strtok_r (buffer (with_line ''OPEN DEV1 arg1 arg2'')) (Some 0) '' '' None
        = Inr (Some 0, m1, Some 5) \<and>
      strtok_r m1 None '' '' (Some 5) = Inr (Some 5, m2, Some 10) \<and>
      processCommand (with_line ''OPEN DEV1 arg1 arg2'') = Inr (Some (1, snap), fin) \<and>
      buffer snap = m2 \<and> last_ptr snap = Some 10 \<and> delim snap = '' '' \<and>
      next_token snap = Inr (Some 10, s1) \<and>
      next_token s1 = Inr (Some 15, s2) \<and>
      next_token s2 = Inr (None, s3) \<and>
      map (cstr (buffer s3)) [0, 5, 10, 15] = [''OPEN'', ''DEV1'', ''arg1'', ''arg2'']"
    by (simp add: with_line_def example_device_def strtok_r_def strspn_at_def strcspn_at_def
        processCommand_def lookupCommandByName_def runCommand_def next_token_def cstr_def
        lookup_from.simps clearBuffer_def Let_def)
next
  fix s :: SerialCommand and p
  assume h: "last_ptr s = Some p \<and> NUL \<in> set (drop p (buffer s))"
  then have lp: "last_ptr s = Some p" and n: "NUL \<in> set (drop p (buffer s))" by simp_all
  from strtok_r_step [OF n, of "delim s"] obtain tok mem' l where
    a: "strtok_r (buffer s) None (delim s) (Some p) = Inr (tok, mem', Some l)" and
    na: "NUL \<in> set (drop l mem')" and
    ta: "case tok of
           None \<Rightarrow> spec_tokens (delim s) (cstr (buffer s) p) = [] \<and>
                   spec_tokens (delim s) (cstr mem' l) = [] \<and> mem' = buffer s
         | Some q \<Rightarrow> spec_tokens (delim s) (cstr (buffer s) p)
                       = cstr mem' q # spec_tokens (delim s) (cstr mem' l)"
    by blast
  let ?s' = "s\<lparr>buffer := mem', last_ptr := Some l\<rparr>"
  have r: "next_token s = Inr (tok, ?s')" using a lp by (simp add: next_token_def)
  have e: "tok = None \<longleftrightarrow> spec_tokens (delim s) (cstr (buffer s) p) = []"
    using ta by (cases tok) auto
  have c: "\<forall>q. tok = Some q \<longrightarrow> spec_tokens (delim s) (cstr (buffer s) p)
              = cstr (buffer ?s') q # spec_tokens (delim ?s') (cstr (buffer ?s') l)"
    using ta by (cases tok) auto
  from r na e c show "\<exists>tok s' l. next_token s = Inr (tok, s') \<and> last_ptr s' = Some l \<and>
         NUL \<in> set (drop l (buffer s')) \<and>
         (tok = None \<longleftrightarrow> spec_tokens (delim s) (cstr (buffer s) p) = []) \<and>
         (tok = None \<longleftrightarrow> set (cstr (buffer s) p) \<subseteq> set (delim s)) \<and>
         (\<forall>q. tok = Some q \<longrightarrow>
            spec_tokens (delim s) (cstr (buffer s) p)
              = cstr (buffer s') q # spec_tokens (delim s') (cstr (buffer s') l))"
    unfolding spec_tokens_empty_iff [symmetric]
    by (intro exI [of _ tok] exI [of _ ?s'] exI [of _ l]) simp
qed

theorem next_token_spec_tokens_witness:
  "last_ptr ((with_line ''OPEN DEV1 arg1 arg2'')\<lparr>last_ptr := Some 10\<rparr>) = Some 10 \<and>
   NUL \<in> set (drop 10 (buffer ((with_line ''OPEN DEV1 arg1 arg2'')\<lparr>last_ptr := Some 10\<rparr>))) \<and>
   spec_tokens '' '' (cstr (buffer ((with_line ''OPEN DEV1 arg1 arg2'')\<lparr>last_ptr := Some 10\<rparr>)) 10)
     = [''arg1'', ''arg2''] \<and>
   (\<exists>q s'. next_token ((with_line ''OPEN DEV1 arg1 arg2'')\<lparr>last_ptr := Some 10\<rparr>)
             = Inr (Some q, s') \<and> cstr (buffer s') q = ''arg1'')"
proof -
  let ?s = "(with_line ''OPEN DEV1 arg1 arg2'')\<lparr>last_ptr := Some 10\<rparr>"
  have h1: "last_ptr ?s = Some 10" by simp
  have h2: "NUL \<in> set (drop 10 (buffer ?s))" by code_simp
  have d: "delim ?s = '' ''" by code_simp
  have tk: "spec_tokens '' '' (cstr (buffer ?s) 10) = [''arg1'', ''arg2'']" by code_simp
  from next_token_spec_tokens have
    "\<forall>s p. last_ptr s = Some p \<and> NUL \<in> set (drop p (buffer s)) \<longrightarrow>
      (\<exists>tok s' l. next_token s = Inr (tok, s') \<and> last_ptr s' = Some l \<and>
         NUL \<in> set (drop l (buffer s')) \<and>
         (tok = None \<longleftrightarrow> spec_tokens (delim s) (cstr (buffer s) p) = []) \<and>
         (tok = None \<longleftrightarrow> set (cstr (buffer s) p) \<subseteq> set (delim s)) \<and>
         (\<forall>q. tok = Some q \<longrightarrow>
            spec_tokens (delim s) (cstr (buffer s) p)
              = cstr (buffer s') q # spec_tokens (delim s') (cstr (buffer s') l)))"
    by (rule conjunct2)
  with h1 h2 obtain tok s' l where
    r: "next_token ?s = Inr (tok, s')" and
    e: "tok = None \<longleftrightarrow> spec_tokens (delim ?s) (cstr (buffer ?s) 10) = []" and
    c: "\<forall>q. tok = Some q \<longrightarrow> spec_tokens (delim ?s) (cstr (buffer ?s) 10)
              = cstr (buffer s') q # spec_tokens (delim s') (cstr (buffer s') l)"
    by blast
  from e tk d obtain q where q: "tok = Some q" by (cases tok) auto
  with c tk d have "cstr (buffer s') q = ''arg1''" by simp
  with r q h1 h2 tk show ?thesis by blast
qed

subsection \<open>Lookup\<close>

lemma lookup_from_scan:
  assumes "commandCount s \<le> length (commandList s)"
    and "\<forall>i<commandCount s. name (commandList s ! i) \<noteq> None"
  shows "\<exists>r. lookup_from s n i = Inr r \<and>
           (case r of
              Some c \<Rightarrow> (\<exists>k. i \<le> k \<and> k < commandCount s \<and> c = commandList s ! k \<and>
                            name_is s c n \<and>
                            (\<forall>j. i \<le> j \<and> j < k \<longrightarrow> \<not> name_is s (commandList s ! j) n))
            | None \<Rightarrow> (\<forall>j. i \<le> j \<and> j < commandCount s \<longrightarrow> \<not> name_is s (commandList s ! j) n))"
  using assms
proof (induction s n i rule: lookup_from.induct)
  case (1 s n i)
  show ?case
  proof (cases "i < commandCount s")
    case False
    then have "\<forall>j. i \<le> j \<and> j < commandCount s \<longrightarrow> \<not> name_is s (commandList s ! j) n"
      by auto
    moreover have "lookup_from s n i = Inr None"
      using False by (subst lookup_from.simps) simp
    ultimately show ?thesis by simp
  next
    case True
    with "1.prems" have inb: "\<not> length (commandList s) \<le> i" by simp
    from True "1.prems" obtain q where q: "name (commandList s ! i) = Some q" by auto
    show ?thesis
    proof (cases "strcmp n (deref s q) = 0")
      case eq: True
      then have "name_is s (commandList s ! i) n" using q by (simp add: name_is_def strcmp_eq_0_iff)
      moreover have "lookup_from s n i = Inr (Some (commandList s ! i))"
        using True inb q eq by (subst lookup_from.simps) simp
      ultimately show ?thesis using True by auto
    next
      case ne: False
      then have nm: "\<not> name_is s (commandList s ! i) n"
        using q by (auto simp: name_is_def strcmp_eq_0_iff)
      have step: "lookup_from s n i = lookup_from s n (Suc i)"
        using True inb q ne by (subst lookup_from.simps) simp
      from "1.IH" [OF True inb q ne "1.prems"] obtain r where
        r: "lookup_from s n (Suc i) = Inr r" and
        c: "case r of
              Some c \<Rightarrow> (\<exists>k. Suc i \<le> k \<and> k < commandCount s \<and> c = commandList s ! k \<and>
                            name_is s c n \<and>
                            (\<forall>j. Suc i \<le> j \<and> j < k \<longrightarrow> \<not> name_is s (commandList s ! j) n))
            | None \<Rightarrow> (\<forall>j. Suc i \<le> j \<and> j < commandCount s \<longrightarrow> \<not> name_is s (commandList s ! j) n)"
        by blast
      show ?thesis
      proof (cases r)
        case None
        with c have tail: "\<forall>j. Suc i \<le> j \<and> j < commandCount s \<longrightarrow> \<not> name_is s (commandList s ! j) n"
          by simp
        have "\<not> name_is s (commandList s ! j) n" if "i \<le> j" "j < commandCount s" for j
        proof (cases "j = i")
          case True
          then show ?thesis using nm by simp
        next
          case False
          with that have "Suc i \<le> j" by simp
          with tail that show ?thesis by blast
        qed
        with step r None show ?thesis by simp
      next
        case (Some c')
        with c obtain k where k: "Suc i \<le> k" "k < commandCount s" "c' = commandList s ! k"
          "name_is s c' n" and
          tail: "\<forall>j. Suc i \<le> j \<and> j < k \<longrightarrow> \<not> name_is s (commandList s ! j) n"
          by auto
        have "\<not> name_is s (commandList s ! j) n" if "i \<le> j" "j < k" for j
        proof (cases "j = i")
          case True
          then show ?thesis using nm by simp
        next
          case False
          with that have "Suc i \<le> j" by simp
          with tail that show ?thesis by blast
        qed
        moreover have "i \<le> k" using k(1) by simp
        ultimately have "\<exists>k. i \<le> k \<and> k < commandCount s \<and> c' = commandList s ! k \<and>
                            name_is s c' n \<and>
                            (\<forall>j. i \<le> j \<and> j < k \<longrightarrow> \<not> name_is s (commandList s ! j) n)"
          using k by blast
        with step r Some show ?thesis by simp
      qed
    qed
  qed
qed

text \<open>
  Claim C5. For a registry whose \<^verbatim>\<open>_commandCount\<close> entries lie in the array and have
  names, \<^verbatim>\<open>lookupCommandByName\<close> of a non-null name changes only the current command.
  It becomes the first entry, from the front, whose name equals the looked-up name byte
  for byte; if no entry does, it becomes the default handler (null or not) paired with
  the pointer to the looked-up name, so that \<^verbatim>\<open>runCommand\<close> calls nothing when the
  default handler is null and otherwise passes the handler an object in which that name
  reads as it was received.
\<close>

theorem lookupCommandByName_first_match:
  assumes "commandCount s \<le> length (commandList s)"
    and "\<forall>i<commandCount s. name (commandList s ! i) \<noteq> None"
  shows "\<exists>s'. lookupCommandByName s (Some p) = Inr s' \<and>
           s' = s\<lparr>current_command := current_command s'\<rparr> \<and>
           (\<forall>i. i < commandCount s \<and> name_is s (commandList s ! i) (deref s p) \<and>
                (\<forall>j<i. \<not> name_is s (commandList s ! j) (deref s p)) \<longrightarrow>
              current_command s' = commandList s ! i) \<and>
           ((\<forall>i<commandCount s. \<not> name_is s (commandList s ! i) (deref s p)) \<longrightarrow>
              current_command s' = \<lparr>name = Some p, func = func (default_command s)\<rparr> \<and>
              deref s' p = deref s p \<and>
              runCommand s' = map_option (\<lambda>f. (f, s')) (func (default_command s)))"
proof -
  from lookup_from_scan [OF assms, of "deref s p" 0] obtain r where
    r: "lookup_from s (deref s p) 0 = Inr r" and
    c: "case r of
          Some c \<Rightarrow> (\<exists>k. 0 \<le> k \<and> k < commandCount s \<and> c = commandList s ! k \<and>
                        name_is s c (deref s p) \<and>
                        (\<forall>j. 0 \<le> j \<and> j < k \<longrightarrow> \<not> name_is s (commandList s ! j) (deref s p)))
        | None \<Rightarrow> (\<forall>j. 0 \<le> j \<and> j < commandCount s \<longrightarrow>
                      \<not> name_is s (commandList s ! j) (deref s p))"
    by blast
  show ?thesis
  proof (cases r)
    case None
    let ?s' = "s\<lparr>current_command := (default_command s)\<lparr>name := Some p\<rparr>\<rparr>"
    have l: "lookupCommandByName s (Some p) = Inr ?s'"
      using r None by (simp add: lookupCommandByName_def)
    have d: "deref ?s' p = deref s p" by (cases p) simp_all
    have cc: "current_command ?s' = \<lparr>name = Some p, func = func (default_command s)\<rparr>" by simp
    have rc: "runCommand ?s' = map_option (\<lambda>f. (f, ?s')) (func (default_command s))"
      by (simp add: runCommand_def split: option.splits)
    have nomatch: "\<forall>i. i < commandCount s \<longrightarrow> \<not> name_is s (commandList s ! i) (deref s p)"
      using c None by simp
    have A: "\<forall>i. i < commandCount s \<and> name_is s (commandList s ! i) (deref s p) \<and>
                (\<forall>j<i. \<not> name_is s (commandList s ! j) (deref s p)) \<longrightarrow>
              current_command ?s' = commandList s ! i"
      using nomatch by blast
    have B: "(\<forall>i<commandCount s. \<not> name_is s (commandList s ! i) (deref s p)) \<longrightarrow>
              current_command ?s' = \<lparr>name = Some p, func = func (default_command s)\<rparr> \<and>
              deref ?s' p = deref s p \<and>
              runCommand ?s' = map_option (\<lambda>f. (f, ?s')) (func (default_command s))"
      using cc d rc by blast
    have E: "?s' = s\<lparr>current_command := current_command ?s'\<rparr>" by simp
    from l E A B show ?thesis by blast
  next
    case (Some c')
    with c obtain k where k: "k < commandCount s" "c' = commandList s ! k"
      "name_is s c' (deref s p)" "\<forall>j. j < k \<longrightarrow> \<not> name_is s (commandList s ! j) (deref s p)"
      by auto
    let ?s' = "s\<lparr>current_command := c'\<rparr>"
    have l: "lookupCommandByName s (Some p) = Inr ?s'"
      using r Some by (simp add: lookupCommandByName_def)
    have first: "current_command ?s' = commandList s ! i"
      if "i < commandCount s" "name_is s (commandList s ! i) (deref s p)"
        "\<forall>j<i. \<not> name_is s (commandList s ! j) (deref s p)" for i
    proof -
      have "\<not> i < k" using k(4) that(2) by blast
      moreover have "\<not> k < i" using that(3) k(2,3) by blast
      ultimately have "i = k" by simp
      then show ?thesis using k(2) by simp
    qed
    have some: "\<not> (\<forall>i<commandCount s. \<not> name_is s (commandList s ! i) (deref s p))"
      using k by blast
    have A: "\<forall>i. i < commandCount s \<and> name_is s (commandList s ! i) (deref s p) \<and>
                (\<forall>j<i. \<not> name_is s (commandList s ! j) (deref s p)) \<longrightarrow>
              current_command ?s' = commandList s ! i"
      using first by blast
    have B: "(\<forall>i<commandCount s. \<not> name_is s (commandList s ! i) (deref s p)) \<longrightarrow>
              current_command ?s' = \<lparr>name = Some p, func = func (default_command s)\<rparr> \<and>
              deref ?s' p = deref s p \<and>
              runCommand ?s' = map_option (\<lambda>f. (f, ?s')) (func (default_command s))"
      using some by blast
    have E: "?s' = s\<lparr>current_command := current_command ?s'\<rparr>" by simp
    from l E A B show ?thesis by blast
  qed
qed

theorem lookupCommandByName_first_match_witness:
  "commandCount (with_line ''CLOSE'') \<le> length (commandList (with_line ''CLOSE'')) \<and>
   deref (with_line ''CLOSE'') (Buf 0) = ''CLOSE'' \<and>
   (\<exists>s'. lookupCommandByName (with_line ''CLOSE'') (Some (Buf 0)) = Inr s' \<and>
         current_command s' = \<lparr>name = Some (Buf 0), func = Some 9\<rparr> \<and>
         runCommand s' = Some (9, s') \<and> deref s' (Buf 0) = ''CLOSE'') \<and>
   (\<exists>snap fin. processCommand (with_line ''CLOSE DEV1'') = Inr (Some (9, snap), fin) \<and>
         name (current_command snap) = Some (Buf 0) \<and> deref snap (Buf 0) = ''CLOSE'') \<and>
   (\<exists>s'. lookupCommandByName (with_line ''open'') (Some (Buf 0)) = Inr s' \<and>
         func (current_command s') = Some 9) \<and>
   (\<exists>s'. lookupCommandByName
           ((with_line ''OPEN'')\<lparr>commandList := [\<lparr>name = Some (Lit ''OPEN''), func = Some 1\<rparr>,
                                                 \<lparr>name = Some (Lit ''OPEN''), func = Some 2\<rparr>],
                                commandCount := 2\<rparr>) (Some (Buf 0)) = Inr s' \<and>
         func (current_command s') = Some 1)"
proof -
  let ?s = "with_line ''CLOSE''"
  have h1: "commandCount ?s \<le> length (commandList ?s)" by code_simp
  have cc: "commandCount ?s = 1" by code_simp
  have n0: "name (commandList ?s ! 0) = Some (Lit ''OPEN'')" by code_simp
  have h2: "\<forall>i<commandCount ?s. name (commandList ?s ! i) \<noteq> None" unfolding cc using n0 by simp
  have d: "deref ?s (Buf 0) = ''CLOSE''" by code_simp
  have "\<not> name_is ?s (commandList ?s ! 0) ''CLOSE''" by (simp add: name_is_def n0)
  then have h3: "\<forall>i<commandCount ?s. \<not> name_is ?s (commandList ?s ! i) (deref ?s (Buf 0))"
    unfolding cc d by simp
  have f: "func (default_command ?s) = Some 9" by code_simp
  from lookupCommandByName_first_match [OF h1 h2, of "Buf 0"] h3 obtain s' where
    "lookupCommandByName ?s (Some (Buf 0)) = Inr s'"
    "current_command s' = \<lparr>name = Some (Buf 0), func = func (default_command ?s)\<rparr>"
    "deref s' (Buf 0) = deref ?s (Buf 0)"
    "runCommand s' = map_option (\<lambda>f. (f, s')) (func (default_command ?s))"
    by blast
  then have r1: "\<exists>s'. lookupCommandByName ?s (Some (Buf 0)) = Inr s' \<and>
         current_command s' = \<lparr>name = Some (Buf 0), func = Some 9\<rparr> \<and>
         runCommand s' = Some (9, s') \<and> deref s' (Buf 0) = ''CLOSE''"
    unfolding f d by auto
  have r2: "\<exists>snap fin. processCommand (with_line ''CLOSE DEV1'') = Inr (Some (9, snap), fin) \<and>
         name (current_command snap) = Some (Buf 0) \<and> deref snap (Buf 0) = ''CLOSE''"
    by (simp add: with_line_def example_device_def strtok_r_def strspn_at_def strcspn_at_def
        processCommand_def lookupCommandByName_def runCommand_def cstr_def lookup_from.simps
        clearBuffer_def Let_def)
  have r3: "\<exists>s'. lookupCommandByName (with_line ''open'') (Some (Buf 0)) = Inr s' \<and>
         func (current_command s') = Some 9"
    by (simp add: with_line_def example_device_def lookupCommandByName_def cstr_def
        lookup_from.simps)
  have r4: "\<exists>s'. lookupCommandByName
           ((with_line ''OPEN'')\<lparr>commandList := [\<lparr>name = Some (Lit ''OPEN''), func = Some 1\<rparr>,
                                                 \<lparr>name = Some (Lit ''OPEN''), func = Some 2\<rparr>],
                                commandCount := 2\<rparr>) (Some (Buf 0)) = Inr s' \<and>
         func (current_command s') = Some 1"
    by (simp add: with_line_def example_device_def lookupCommandByName_def cstr_def
        lookup_from.simps)
  from h1 d r1 r2 r3 r4 show ?thesis by blast
qed

subsection \<open>Clearing\<close>

lemma clearBuffer_twice: "clearBuffer (clearBuffer s) = clearBuffer s"
  by (simp add: clearBuffer_def)

text \<open>
  Claim C7, as the code has it. \<^verbatim>\<open>clearBuffer\<close> is idempotent; after it \<^verbatim>\<open>_bufPos\<close> is
  zero and the buffer holds the empty string; the object \<^verbatim>\<open>processCommand\<close> leaves is
  already cleared, so that clearing it again changes nothing. The saved pointer of the
  tokenizer is left as it was.
\<close>

theorem clearBuffer_idempotent:
  "clearBuffer (clearBuffer s) = clearBuffer s \<and>
   bufPos (clearBuffer s) = 0 \<and>
   last_ptr (clearBuffer s) = last_ptr s \<and>
   (buffer s \<noteq> [] \<longrightarrow> buffer (clearBuffer s) ! 0 = NUL \<and> cstr (buffer (clearBuffer s)) 0 = []) \<and>
   (\<forall>c s'. processCommand s = Inr (c, s') \<longrightarrow> clearBuffer s' = s')"
proof (intro conjI impI allI)
  show "clearBuffer (clearBuffer s) = clearBuffer s" by (rule clearBuffer_twice)
  show "bufPos (clearBuffer s) = 0" by (simp add: clearBuffer_def)
  show "last_ptr (clearBuffer s) = last_ptr s" by (simp add: clearBuffer_def)
next
  assume "buffer s \<noteq> []"
  then obtain x xs where "buffer s = x # xs" by (cases "buffer s") auto
  then show "buffer (clearBuffer s) ! 0 = NUL" "cstr (buffer (clearBuffer s)) 0 = []"
    by (simp_all add: clearBuffer_def cstr_def)
next
  fix c s'
  assume "processCommand s = Inr (c, s')"
  then obtain t where "s' = clearBuffer t"
    by (auto simp: processCommand_def Let_def split: sum.splits option.splits if_splits)
  then show "clearBuffer s' = s'" by (simp add: clearBuffer_twice)
qed

theorem clearBuffer_idempotent_witness:
  "buffer (with_line ''OPEN DEV1 arg1 arg2'') \<noteq> [] \<and>
   cstr (buffer (clearBuffer (with_line ''OPEN DEV1 arg1 arg2''))) 0 = [] \<and>
   (\<exists>c s'. processCommand (with_line ''OPEN DEV1 arg1 arg2'') = Inr (c, s') \<and>
      clearBuffer s' = s' \<and> last_ptr s' = Some 10)"
proof -
  let ?s = "with_line ''OPEN DEV1 arg1 arg2''"
  have h1: "buffer ?s \<noteq> []" by (simp add: with_line_def)
  have "\<exists>c s'. processCommand ?s = Inr (c, s') \<and> last_ptr s' = Some 10"
    by (simp add: with_line_def example_device_def strtok_r_def strspn_at_def strcspn_at_def
        processCommand_def lookupCommandByName_def runCommand_def cstr_def lookup_from.simps
        clearBuffer_def Let_def)
  then obtain c s' where p: "processCommand ?s = Inr (c, s')" and l: "last_ptr s' = Some 10"
    by blast
  from clearBuffer_idempotent [of ?s] h1 p have "cstr (buffer (clearBuffer ?s)) 0 = []"
    and "clearBuffer s' = s'" by blast+
  with h1 p l show ?thesis by blast
qed

text \<open>
  \<^verbatim>\<open>clearBuffer\<close> does not invalidate the cursor: after the dispatch of
  \<^verbatim>\<open>"OPEN DEV1 arg1 arg2"\<close> and one more \<^verbatim>\<open>clearBuffer\<close>, \<^verbatim>\<open>_last\<close> still points to
  offset 10 and \<^verbatim>\<open>next\<close> returns the token \<^verbatim>\<open>arg1\<close> of the cleared line.
\<close>

theorem clearBuffer_cursor_counterexample:
  "last_ptr (clearBuffer (snd (projr (processCommand (with_line ''OPEN DEV1 arg1 arg2'')))))
     = Some 10 \<and>
   returned_token (next_token
      (clearBuffer (snd (projr (processCommand (with_line ''OPEN DEV1 arg1 arg2''))))))
     = Some ''arg1''"
  by (simp add: with_line_def example_device_def strtok_r_def strspn_at_def strcspn_at_def
        processCommand_def lookupCommandByName_def runCommand_def cstr_def lookup_from.simps
        clearBuffer_def Let_def next_token_def returned_token_def)

subsection \<open>Transmission\<close>



end
